theory Spec2Isabelle
  imports Main
begin

section \<open>Data model (src/types.ts)\<close>

datatype PlayerColor = WHITE | BLACK

datatype GameStatus = WAITING | ACTIVE | FINISHED | DRAW

record Position =
  row :: int
  col :: int

record Piece =
  color :: PlayerColor
  isKing :: bool

text \<open>\<^verbatim>\<open>BoardState = (Piece | null)[][]\<close>: a list of rows, \<open>None\<close> for \<^verbatim>\<open>null\<close>.\<close>

type_synonym BoardState = "Piece option list list"

text \<open>
  The fields \<^verbatim>\<open>from\<close> and \<^verbatim>\<open>to\<close> of the source are written \<open>mfrom\<close> and \<open>mto\<close>
  (\<^verbatim>\<open>from\<close> is a keyword of the proof language).
\<close>

record Move =
  mfrom :: Position
  mto :: Position
  captures :: "Position list"
  path :: "Position list"
  becomesKing :: bool

section \<open>Rule engine (src/rules/checkersRules.ts)\<close>

definition BOARD_SIZE :: int where
  "BOARD_SIZE = 8"

text \<open>
  \<^verbatim>\<open>board[r][c]\<close>. Every read of the rule engine is guarded by the test
  \<^verbatim>\<open>r >= 0 && r < BOARD_SIZE && c >= 0 && c < BOARD_SIZE\<close> (or implied by it), so on an
  8x8 board no read leaves the grid. Outside the grid JavaScript yields \<^verbatim>\<open>undefined\<close>
  or throws a \<^verbatim>\<open>TypeError\<close>; the model answers \<open>None\<close> there, and the theorems below
  are stated for 8x8 boards (\<open>wf_board\<close>), where that branch is not taken.
\<close>

definition cell :: "BoardState \<Rightarrow> int \<Rightarrow> int \<Rightarrow> Piece option" where
  "cell board r c =
     (if 0 \<le> r \<and> r < int (length board) \<and> 0 \<le> c \<and> c < int (length (board ! nat r))
      then board ! nat r ! nat c else None)"

definition inBoard :: "int \<Rightarrow> int \<Rightarrow> bool" where
  "inBoard r c \<longleftrightarrow> r \<ge> 0 \<and> r < BOARD_SIZE \<and> c \<ge> 0 \<and> c < BOARD_SIZE"

definition wf_board :: "BoardState \<Rightarrow> bool" where
  "wf_board board \<longleftrightarrow> length board = 8 \<and> (\<forall>r \<in> set board. length r = 8)"

definition initializeBoard :: BoardState where
  "initializeBoard =
     map (\<lambda>r. map (\<lambda>c.
            if (r + c) mod 2 = 1 then
              (if r < 3 then Some \<lparr>color = BLACK, isKing = False\<rparr>
               else if r > 4 then Some \<lparr>color = WHITE, isKing = False\<rparr>
               else None)
            else None) [0..7]) [0..7]"

text \<open>
  The four constant pairs \<^verbatim>\<open>[[-1, -1], [-1, 1], [1, -1], [1, 1]]\<close> of the source, as an
  enumeration with its row step \<open>dr\<close> and column step \<open>dc\<close>.
\<close>

datatype Direction = UpLeft | UpRight | DownLeft | DownRight

fun dr :: "Direction \<Rightarrow> int" where
  "dr UpLeft = -1"
| "dr UpRight = -1"
| "dr DownLeft = 1"
| "dr DownRight = 1"

fun dc :: "Direction \<Rightarrow> int" where
  "dc UpLeft = -1"
| "dc UpRight = 1"
| "dc DownLeft = -1"
| "dc DownRight = 1"

definition allDirections :: "Direction list" where
  "allDirections = [UpLeft, UpRight, DownLeft, DownRight]"

text \<open>The flying-king loop of \<^verbatim>\<open>getSimpleMoves\<close>: slide until the edge or a piece.\<close>

function kingSlide :: "BoardState \<Rightarrow> Position \<Rightarrow> int \<Rightarrow> int \<Rightarrow> Direction \<Rightarrow> Move list" where
  "kingSlide board frm r c d =
     (if inBoard r c then
        (if cell board r c \<noteq> None then []
         else \<lparr>mfrom = frm, mto = \<lparr>row = r, col = c\<rparr>, captures = [],
                path = [\<lparr>row = r, col = c\<rparr>], becomesKing = False\<rparr>
              # kingSlide board frm (r + dr d) (c + dc d) d)
      else [])"
  by pat_completeness auto
termination
  apply (relation "measure (\<lambda>(board, frm, r, c, d). if dr d = 1 then nat (8 - r) else nat (r + 1))")
   apply simp
  subgoal for board frm r c d by (cases d) (auto simp: inBoard_def BOARD_SIZE_def)
  done

definition getSimpleMoves :: "BoardState \<Rightarrow> Position \<Rightarrow> Piece \<Rightarrow> Move list" where
  "getSimpleMoves board frm piece =
     (let directions =
            (if isKing piece then [UpLeft, UpRight, DownLeft, DownRight]
             else if color piece = WHITE then [UpLeft, UpRight] else [DownLeft, DownRight])
      in concat (map (\<lambda>d.
           let r = row frm + dr d; c = col frm + dc d in
           if isKing piece then kingSlide board frm r c d
           else if inBoard r c \<and> cell board r c = None then
             (let isPromotion = (color piece = WHITE \<and> r = 0) \<or> (color piece = BLACK \<and> r = 7)
              in [\<lparr>mfrom = frm, mto = \<lparr>row = r, col = c\<rparr>, captures = [],
                    path = [\<lparr>row = r, col = c\<rparr>], becomesKing = isPromotion\<rparr>])
           else []) directions))"

text \<open>
  The outer scan of the king's capture logic: walk the diagonal from \<open>(r, c)\<close> to the
  first occupied square, if any.
\<close>

function findPiece :: "BoardState \<Rightarrow> int \<Rightarrow> int \<Rightarrow> Direction \<Rightarrow> (Position \<times> Piece) option" where
  "findPiece board r c d =
     (if inBoard r c then
        (case cell board r c of
           Some p \<Rightarrow> Some (\<lparr>row = r, col = c\<rparr>, p)
         | None \<Rightarrow> findPiece board (r + dr d) (c + dc d) d)
      else None)"
  by pat_completeness auto
termination
  apply (relation "measure (\<lambda>(board, r, c, d). if dr d = 1 then nat (8 - r) else nat (r + 1))")
   apply simp
  subgoal for board r c d by (cases d) (auto simp: inBoard_def BOARD_SIZE_def)
  done

text \<open>
  The inner loop of the king's capture logic enumerates the landing squares behind the
  captured piece: it walks on from \<open>(landR, landC)\<close> while the square is empty or is the
  start square, and stops at the edge or at the first other piece.
\<close>

function landingSquares :: "BoardState \<Rightarrow> int \<Rightarrow> int \<Rightarrow> Direction \<Rightarrow> Position \<Rightarrow> Position list" where
  "landingSquares board landR landC d originalStart =
     (if inBoard landR landC then
        (let destCell = cell board landR landC;
             isStart = (landR = row originalStart \<and> landC = col originalStart)
         in if destCell \<noteq> None \<and> \<not> isStart then []
            else \<lparr>row = landR, col = landC\<rparr>
                 # landingSquares board (landR + dr d) (landC + dc d) d originalStart)
      else [])"
  by pat_completeness auto
termination
  apply (relation "measure (\<lambda>(board, r, c, d, s). if dr d = 1 then nat (8 - r) else nat (r + 1))")
   apply simp
  subgoal for board landR landC d originalStart by (cases d) (auto simp: inBoard_def BOARD_SIZE_def)
  done


declare kingSlide.simps [simp del] findPiece.simps [simp del] landingSquares.simps [simp del]

text \<open>
  The squares of the board that hold a piece and are not yet in \<open>capturedInPath\<close>:
  every recursive call of the capture search captures one of them.
\<close>

definition remaining :: "BoardState \<Rightarrow> Position list \<Rightarrow> nat" where
  "remaining board capturedInPath =
     card ({p. cell board (row p) (col p) \<noteq> None} - set capturedInPath)"

lemma finite_occupied: "finite {p :: Position. cell board (row p) (col p) \<noteq> None}"
proof -
  let ?f = "\<lambda>ij. \<lparr>row = int (fst ij), col = int (snd ij)\<rparr>"
  let ?S = "SIGMA i:{..<length board}. {..<length (board ! i)}"
  have sub: "{p :: Position. cell board (row p) (col p) \<noteq> None} \<subseteq> ?f ` ?S"
  proof
    fix p :: Position
    assume "p \<in> {p :: Position. cell board (row p) (col p) \<noteq> None}"
    then have ne: "cell board (row p) (col p) \<noteq> None" by simp
    have b1: "0 \<le> row p \<and> row p < int (length board)"
      using ne unfolding cell_def by (simp split: if_splits)
    have b2: "0 \<le> col p \<and> col p < int (length (board ! nat (row p)))"
      using ne unfolding cell_def by (simp split: if_splits)
    have n1: "nat (row p) < length board" using b1 by linarith
    have n2: "nat (col p) < length (board ! nat (row p))" using b2 by linarith
    have "p = ?f (nat (row p), nat (col p))" using b1 b2 by simp
    moreover have "(nat (row p), nat (col p)) \<in> ?S" using n1 n2 by simp
    ultimately show "p \<in> ?f ` ?S" by (rule image_eqI)
  qed
  have fin: "finite (?f ` ?S)" by (intro finite_imageI finite_SigmaI) simp_all
  from finite_subset[OF sub fin] show ?thesis .
qed

lemma remaining_less:
  assumes "cell board (row p) (col p) \<noteq> None" and "p \<notin> set cip"
  shows "remaining board (cip @ [p]) < remaining board cip"
proof -
  let ?A = "{p :: Position. cell board (row p) (col p) \<noteq> None}"
  have sub: "?A - set (cip @ [p]) \<subset> ?A - set cip" using assms by auto
  have fin: "finite (?A - set cip)" using finite_occupied by simp
  from psubset_card_mono[OF fin sub] show ?thesis unfolding remaining_def .
qed

lemma findPiece_Some:
  "findPiece board r c d = Some hit \<Longrightarrow>
     inBoard (row (fst hit)) (col (fst hit)) \<and>
     cell board (row (fst hit)) (col (fst hit)) = Some (snd hit)"
proof (induction board r c d rule: findPiece.induct)
  case (1 board r c d)
  from "1.prems" have inb: "inBoard r c"
    by (subst (asm) findPiece.simps) (simp split: if_splits)
  show ?case
  proof (cases "cell board r c")
    case None
    with inb "1.prems" have "findPiece board (r + dr d) (c + dc d) d = Some hit"
      by (subst (asm) findPiece.simps) simp
    from "1.IH"[OF inb None this] show ?thesis .
  next
    case (Some p)
    with inb "1.prems" have "hit = (\<lparr>row = r, col = c\<rparr>, p)"
      by (subst (asm) findPiece.simps) simp
    with inb Some show ?thesis by simp
  qed
qed

lemma list_ex_Position:
  "list_ex (\<lambda>p. row p = r \<and> col p = c) ps \<longleftrightarrow> \<lparr>row = r, col = c\<rparr> \<in> set ps"
  by (induction ps) auto

lemma list_ex_Position_eq:
  "list_ex (\<lambda>p. row p = row q \<and> col p = col q) ps \<longleftrightarrow> (q :: Position) \<in> set ps"
  by (induction ps) auto

text \<open>
  The king's capture logic in one direction, up to the recursive call: the outer scan
  finds the first piece on the diagonal; if it is an enemy that is not yet captured, each
  landing square behind it gives one (captured square, landing square) pair.
\<close>

definition kingTargets ::
  "BoardState \<Rightarrow> Position \<Rightarrow> Piece \<Rightarrow> Position list \<Rightarrow> Position \<Rightarrow> Direction
     \<Rightarrow> (Position \<times> Position) list" where
  "kingTargets board currentPos piece capturedInPath originalStart d =
     (case findPiece board (row currentPos + dr d) (col currentPos + dc d) d of
        None \<Rightarrow> []
      | Some hit \<Rightarrow>
          (let isEnemy = (color (snd hit) \<noteq> color piece);
               alreadyCaptured =
                 list_ex (\<lambda>p. row p = row (fst hit) \<and> col p = col (fst hit)) capturedInPath
           in if \<not> isEnemy \<or> alreadyCaptured then []
              else map (\<lambda>land. (fst hit, land))
                     (landingSquares board (row (fst hit) + dr d) (col (fst hit) + dc d) d
                        originalStart)))"

text \<open>
  The simple piece's capture logic in one direction, up to the recursive call: the
  guards of the jump over the adjacent square, giving at most one (captured square,
  landing square) pair.
\<close>

definition pawnTargets ::
  "BoardState \<Rightarrow> Position \<Rightarrow> Piece \<Rightarrow> Position list \<Rightarrow> Position \<Rightarrow> Direction
     \<Rightarrow> (Position \<times> Position) list" where
  "pawnTargets board currentPos piece capturedInPath originalStart d =
     (let captureR = row currentPos + dr d;
          captureC = col currentPos + dc d;
          landR = row currentPos + 2 * dr d;
          landC = col currentPos + 2 * dc d
      in if inBoard landR landC then
           (let midPiece = cell board captureR captureC;
                destCell = cell board landR landC;
                isEnemy = (case midPiece of None \<Rightarrow> False | Some mp \<Rightarrow> color mp \<noteq> color piece);
                alreadyCaptured =
                  list_ex (\<lambda>p. row p = captureR \<and> col p = captureC) capturedInPath;
                isStart = (landR = row originalStart \<and> landC = col originalStart);
                isOpen = (destCell = None \<or> isStart)
            in if isEnemy \<and> \<not> alreadyCaptured \<and> isOpen
               then [(\<lparr>row = captureR, col = captureC\<rparr>, \<lparr>row = landR, col = landC\<rparr>)]
               else [])
         else [])"

lemma kingTargets_fresh:
  assumes "t \<in> set (kingTargets board currentPos piece cip start d)"
  shows "cell board (row (fst t)) (col (fst t)) \<noteq> None \<and> fst t \<notin> set cip"
proof (cases "findPiece board (row currentPos + dr d) (col currentPos + dc d) d")
  case None
  with assms show ?thesis by (simp add: kingTargets_def)
next
  case (Some hit)
  with assms have t: "fst t = fst hit" and n: "fst hit \<notin> set cip"
    by (auto simp: kingTargets_def Let_def list_ex_Position_eq split: if_splits)
  from findPiece_Some[OF Some] t n show ?thesis by simp
qed

lemma pawnTargets_fresh:
  assumes "t \<in> set (pawnTargets board currentPos piece cip start d)"
  shows "cell board (row (fst t)) (col (fst t)) \<noteq> None \<and> fst t \<notin> set cip"
  using assms
  by (auto simp: pawnTargets_def Let_def list_ex_Position split: option.splits if_splits)

lemma capture_step_decreases:
  "cell board (row p) (col p) \<noteq> None \<and> p \<notin> set cip \<Longrightarrow>
     ((board, pos', pc', caps', cip @ [p], pth', start'), (board, pos, pc, caps, cip, pth, start))
       \<in> measure (\<lambda>(board, currentPos, piece, currentCaptures, capturedInPath, currentPath,
                     originalStart). remaining board capturedInPath)"
  by (simp add: remaining_less)

text \<open>
  \<^verbatim>\<open>getCaptureMoves\<close>. The board is never changed during the search: captured pieces
  stay on it (and block), and the moving piece stays on \<open>originalStart\<close>. In each branch
  the source recurses once per valid capture found by the guards above (\<open>t\<close> is the pair
  of the captured square and the landing square) and pushes either the longer chains or,
  when there are none, the completed move.
\<close>

function getCaptureMoves ::
  "BoardState \<Rightarrow> Position \<Rightarrow> Piece \<Rightarrow> Position list \<Rightarrow> Position list \<Rightarrow> Position list
     \<Rightarrow> Position \<Rightarrow> Move list" where
  "getCaptureMoves board currentPos piece currentCaptures capturedInPath currentPath originalStart =
     concat (map (\<lambda>d.
       if isKing piece then
         concat (map (\<lambda>t.
             let newCaptures = currentCaptures @ [fst t];
                 newCapturedInPath = capturedInPath @ [fst t];
                 newPath = currentPath @ [snd t];
                 subsequentMoves =
                   getCaptureMoves board (snd t) piece newCaptures newCapturedInPath newPath
                     originalStart
             in if length subsequentMoves > 0 then subsequentMoves
                else [\<lparr>mfrom = originalStart, mto = snd t, captures = newCaptures,
                        path = newPath, becomesKing = True\<rparr>])
           (kingTargets board currentPos piece capturedInPath originalStart d))
       else
         concat (map (\<lambda>t.
             let newCaptures = currentCaptures @ [fst t];
                 newCapturedInPath = capturedInPath @ [fst t];
                 newPath = currentPath @ [snd t];
                 reachedPromotionRow =
                   ((color piece = WHITE \<and> row (snd t) = 0) \<or>
                    (color piece = BLACK \<and> row (snd t) = 7));
                 nextPieceState = (if reachedPromotionRow then piece\<lparr>isKing := True\<rparr> else piece);
                 subsequentMoves =
                   getCaptureMoves board (snd t) nextPieceState newCaptures newCapturedInPath
                     newPath originalStart
             in if length subsequentMoves > 0 then subsequentMoves
                else [\<lparr>mfrom = originalStart, mto = snd t, captures = newCaptures,
                        path = newPath, becomesKing = (reachedPromotionRow \<or> isKing piece)\<rparr>])
           (pawnTargets board currentPos piece capturedInPath originalStart d)))
       allDirections)"
  by pat_completeness auto
termination
  apply (relation "measure (\<lambda>(board, currentPos, piece, currentCaptures, capturedInPath, currentPath,
                             originalStart). remaining board capturedInPath)")
    apply simp
  subgoal premises prems for board currentPos piece currentCaptures capturedInPath currentPath
      originalStart d t xb xc xd
    unfolding prems(4-6) by (rule capture_step_decreases[OF kingTargets_fresh[OF prems(3)]])
  subgoal premises prems for board currentPos piece currentCaptures capturedInPath currentPath
      originalStart d t xb xc xd xe xf
    unfolding prems(4-6) by (rule capture_step_decreases[OF pawnTargets_fresh[OF prems(3)]])
  done

declare getCaptureMoves.simps [simp del]

text \<open>
  \<^verbatim>\<open>calculateAllowedMoves\<close>. The two nested \<^verbatim>\<open>for\<close> statements visit the squares in
  row-major order and carry \<^verbatim>\<open>allMoves\<close> and \<^verbatim>\<open>hasCaptures\<close>; \<open>scanSquare\<close> is the
  loop body (the local \<^verbatim>\<open>captures\<close> is written \<open>captureMoves\<close>, \<open>captures\<close> being the
  field of \<open>Move\<close>).
\<close>

definition squares :: "(int \<times> int) list" where
  "squares = concat (map (\<lambda>r. map (\<lambda>c. (r, c)) [0..7]) [0..7])"

definition scanSquare ::
  "BoardState \<Rightarrow> PlayerColor \<Rightarrow> int \<times> int \<Rightarrow> Move list \<times> bool \<Rightarrow> Move list \<times> bool" where
  "scanSquare board turn rc acc =
     (case cell board (fst rc) (snd rc) of
        None \<Rightarrow> acc
      | Some piece \<Rightarrow>
          if color piece \<noteq> turn then acc
          else
            (let pos = \<lparr>row = fst rc, col = snd rc\<rparr>;
                 captureMoves = getCaptureMoves board pos piece [] [] [] pos;
                 simple = getSimpleMoves board pos piece
             in if length captureMoves > 0 then (fst acc @ captureMoves, True)
                else (fst acc @ simple, snd acc)))"

definition calculateAllowedMoves :: "BoardState \<Rightarrow> PlayerColor \<Rightarrow> Move list" where
  "calculateAllowedMoves board turn =
     (let result = fold (scanSquare board turn) squares ([], False);
          allMoves = fst result;
          hasCaptures = snd result
      in if hasCaptures then filter (\<lambda>m. length (captures m) > 0) allMoves
         else allMoves)"

text \<open>
  \<^verbatim>\<open>applyMove\<close> on board values. \<open>setCell\<close> is the assignment
  \<^verbatim>\<open>newBoard[r][c] = v\<close>, the list update on a square of the grid. Outside the grid
  JavaScript throws a \<^verbatim>\<open>TypeError\<close> (no such row) or grows the row; the model leaves the
  board as it is there, and the theorems below apply it to squares of the grid only (every
  move of \<open>calculateAllowedMoves\<close> stays on the grid, \<open>calculateAllowedMoves_geometry\<close>).
\<close>

definition cloneBoard :: "BoardState \<Rightarrow> BoardState" where
  "cloneBoard board =
     map (\<lambda>r. map (\<lambda>p. case p of
                           Some q \<Rightarrow> Some \<lparr>color = color q, isKing = isKing q\<rparr>
                         | None \<Rightarrow> None) r) board"

definition setCell :: "BoardState \<Rightarrow> int \<Rightarrow> int \<Rightarrow> Piece option \<Rightarrow> BoardState" where
  "setCell board r c v =
     (if 0 \<le> r \<and> r < int (length board) \<and> 0 \<le> c \<and> c < int (length (board ! nat r))
      then board[nat r := (board ! nat r)[nat c := v]] else board)"

definition applyMove :: "BoardState \<Rightarrow> Move \<Rightarrow> BoardState" where
  "applyMove board move =
     (let newBoard = cloneBoard board in
      case cell newBoard (row (mfrom move)) (col (mfrom move)) of
        None \<Rightarrow> newBoard
      | Some p \<Rightarrow>
          (let b1 = setCell newBoard (row (mfrom move)) (col (mfrom move)) None;
               b2 = setCell b1 (row (mto move)) (col (mto move))
                      (Some \<lparr>color = color p, isKing = (isKing p \<or> becomesKing move)\<rparr>)
           in fold (\<lambda>c b. setCell b (row c) (col c) None) (captures move) b2))"

text \<open>
  Names for the parts of the capture search that the properties below speak about: the
  valid captures of a piece in one direction (\<open>targets\<close>), the state of the simulated
  piece after landing (\<open>nextPiece\<close>, the source's \<^verbatim>\<open>nextPieceState\<close>; a king stays as it
  is), and what one valid capture contributes to the result (\<open>continue\<close>: the longer
  chains if there are any, else the completed move). \<open>getCaptureMoves_step\<close> shows that
  the search is exactly their composition.
\<close>

definition targets ::
  "BoardState \<Rightarrow> Position \<Rightarrow> Piece \<Rightarrow> Position list \<Rightarrow> Position \<Rightarrow> Direction
     \<Rightarrow> (Position \<times> Position) list" where
  "targets board currentPos piece capturedInPath originalStart d =
     (if isKing piece then kingTargets board currentPos piece capturedInPath originalStart d
      else pawnTargets board currentPos piece capturedInPath originalStart d)"

definition nextPiece :: "Piece \<Rightarrow> Position \<Rightarrow> Piece" where
  "nextPiece piece land =
     (if \<not> isKing piece \<and>
         ((color piece = WHITE \<and> row land = 0) \<or> (color piece = BLACK \<and> row land = 7))
      then piece\<lparr>isKing := True\<rparr> else piece)"

definition continue ::
  "BoardState \<Rightarrow> Piece \<Rightarrow> Position list \<Rightarrow> Position list \<Rightarrow> Position list \<Rightarrow> Position
     \<Rightarrow> Position \<times> Position \<Rightarrow> Move list" where
  "continue board piece caps cip pth start t =
     (let sub = getCaptureMoves board (snd t) (nextPiece piece (snd t)) (caps @ [fst t])
                  (cip @ [fst t]) (pth @ [snd t]) start
      in if sub \<noteq> [] then sub
         else [\<lparr>mfrom = start, mto = snd t, captures = caps @ [fst t], path = pth @ [snd t],
                 becomesKing = isKing (nextPiece piece (snd t))\<rparr>])"

text \<open>
  A piece of the side to move on square \<open>rc\<close> has at least one capture chain; and some
  square of the board has such a piece.
\<close>

definition captureAt :: "BoardState \<Rightarrow> PlayerColor \<Rightarrow> int \<times> int \<Rightarrow> bool" where
  "captureAt board turn rc =
     (case cell board (fst rc) (snd rc) of
        None \<Rightarrow> False
      | Some piece \<Rightarrow>
          color piece = turn \<and>
          getCaptureMoves board \<lparr>row = fst rc, col = snd rc\<rparr> piece [] [] []
            \<lparr>row = fst rc, col = snd rc\<rparr> \<noteq> [])"

definition anyCapture :: "BoardState \<Rightarrow> PlayerColor \<Rightarrow> bool" where
  "anyCapture board turn = list_ex (captureAt board turn) squares"

text \<open>Boards for the concrete scenarios.\<close>

definition emptyBoard :: BoardState where
  "emptyBoard = replicate 8 (replicate 8 None)"

definition place :: "int \<Rightarrow> int \<Rightarrow> PlayerColor \<Rightarrow> bool \<Rightarrow> BoardState \<Rightarrow> BoardState" where
  "place r c cl k board = setCell board r c (Some \<lparr>color = cl, isKing = k\<rparr>)"

definition doubleJumpBoard :: BoardState where
  "doubleJumpBoard =
     place 5 4 WHITE False (place 4 3 BLACK False (place 2 1 BLACK False emptyBoard))"

definition doubleJumpMove :: Move where
  "doubleJumpMove =
     \<lparr>mfrom = \<lparr>row = 5, col = 4\<rparr>, mto = \<lparr>row = 1, col = 0\<rparr>,
      captures = [\<lparr>row = 4, col = 3\<rparr>, \<lparr>row = 2, col = 1\<rparr>],
      path = [\<lparr>row = 3, col = 2\<rparr>, \<lparr>row = 1, col = 0\<rparr>], becomesKing = False\<rparr>"

definition whitePawn :: Piece where
  "whitePawn = \<lparr>color = WHITE, isKing = False\<rparr>"

definition promotionBoard :: BoardState where
  "promotionBoard =
     place 2 1 WHITE False (place 1 2 BLACK False (place 2 5 BLACK False emptyBoard))"

section \<open>Search bot: static evaluation\<close>

text \<open>
  \<^verbatim>\<open>evaluateBoard\<close> of the search bot (both copies of the bot in the repository have the
  same function). The weights are the fields of \<^verbatim>\<open>SCORES\<close> that the evaluation reads;
  \<open>pieceValue\<close> is the \<^verbatim>\<open>value\<close> computed in the loop body, \<open>evalSquare\<close> the loop
  body with the running \<^verbatim>\<open>score\<close>. All numbers are integers far below \<open>2^53\<close>, so the
  JavaScript arithmetic is exact. The parameter \<^verbatim>\<open>color\<close> is written \<open>clr\<close>.
\<close>

definition SCORES_KING :: int where "SCORES_KING = 800"

definition SCORES_PIECE :: int where "SCORES_PIECE = 100"

definition SCORES_BACK_ROW :: int where "SCORES_BACK_ROW = 40"

definition SCORES_CENTER :: int where "SCORES_CENTER = 15"

definition SCORES_ADVANCE :: int where "SCORES_ADVANCE = 8"

definition pieceValue :: "Piece \<Rightarrow> int \<Rightarrow> int \<Rightarrow> int" where
  "pieceValue p r c =
     (if isKing p then SCORES_KING else SCORES_PIECE)
     + (if c \<ge> 2 \<and> c \<le> 5 \<and> r \<ge> 2 \<and> r \<le> 5 then SCORES_CENTER else 0)
     + (if \<not> isKing p
        then (if color p = WHITE then (7 - r) * SCORES_ADVANCE else r * SCORES_ADVANCE)
        else 0)
     + (if color p = WHITE \<and> r = 7 \<and> \<not> isKing p then SCORES_BACK_ROW else 0)
     + (if color p = BLACK \<and> r = 0 \<and> \<not> isKing p then SCORES_BACK_ROW else 0)"

definition evalSquare :: "BoardState \<Rightarrow> PlayerColor \<Rightarrow> int \<times> int \<Rightarrow> int \<Rightarrow> int" where
  "evalSquare board clr rc score =
     (case cell board (fst rc) (snd rc) of
        None \<Rightarrow> score
      | Some p \<Rightarrow>
          (let val = pieceValue p (fst rc) (snd rc)
           in if color p = clr then score + val else score - val))"

definition evaluateBoard :: "BoardState \<Rightarrow> PlayerColor \<Rightarrow> int" where
  "evaluateBoard board clr = fold (evalSquare board clr) squares 0"

section \<open>Game service (src/services/gameService.ts)\<close>

text \<open>
  The game record of src/types.ts (\<^verbatim>\<open>GameData\<close>) and the operations of
  src/services/gameService.ts on it. Optional and nullable fields are \<open>option\<close>s. The
  record stores the board as its JSON text; the model keeps the board itself (for an 8x8
  board \<^verbatim>\<open>JSON.parse(JSON.stringify(b))\<close> is \<open>b\<close>). Fields whose names are taken already
  carry a prefix: \<open>gboard\<close> and \<open>gturn\<close> are \<^verbatim>\<open>board\<close> and \<^verbatim>\<open>turn\<close>, \<open>lm_\<close> marks the
  fields of \<^verbatim>\<open>lastMove\<close>, \<open>ps_\<close> those of \<^verbatim>\<open>previousState\<close>, \<open>tr_createdAt\<close> is the
  \<^verbatim>\<open>createdAt\<close> of \<^verbatim>\<open>takebackRequest\<close>; \<open>metadata\<close> holds \<^verbatim>\<open>isRandomColor\<close>.
\<close>

record LastMove =
  lm_from :: Position
  lm_to :: Position
  lm_path :: "Position list option"
  lm_ts :: int

record PreviousState =
  ps_board :: BoardState
  ps_turn :: PlayerColor
  ps_halfMoveClock :: int
  ps_lastMove :: "LastMove option"

record TakebackRequest =
  requesterId :: string
  tr_createdAt :: int

record Players =
  white :: "string option"
  black :: "string option"

record GameData =
  gboard :: BoardState
  gturn :: PlayerColor
  players :: Players
  status :: GameStatus
  winner :: "PlayerColor option"
  version :: int
  lastMove :: "LastMove option"
  halfMoveClock :: int
  rematchId :: "string option"
  createdAt :: int
  expireAt :: int
  metadata :: "bool option"
  previousState :: "PreviousState option"
  takebackRequest :: "TakebackRequest option"

text \<open>
  The collection \<^verbatim>\<open>games\<close> of the document store, by game id. An operation returns its
  outcome and the store after it; a transaction that throws commits nothing. The errors
  are the \<^verbatim>\<open>Error\<close>s thrown by the service: \<^verbatim>\<open>"Game not found"\<close>, \<^verbatim>\<open>"Game is full"\<close>,
  \<^verbatim>\<open>"Game missing"\<close> and \<^verbatim>\<open>"Game state has changed, reload recommended"\<close> (the version
  conflict).
\<close>

type_synonym Store = "string \<rightharpoonup> GameData"

datatype ServiceError = GameNotFound | GameFull | GameMissing | VersionConflict

definition joinGame :: "Store \<Rightarrow> string \<Rightarrow> string \<Rightarrow> (ServiceError + unit) \<times> Store" where
  "joinGame db gameId playerId =
     (case db gameId of
        None \<Rightarrow> (Inl GameNotFound, db)
      | Some data \<Rightarrow>
          if white (players data) = Some playerId \<or> black (players data) = Some playerId
          then (Inr (), db)
          else if black (players data) = None \<and> white (players data) \<noteq> None
          then (Inr (), db(gameId \<mapsto> data\<lparr>players := (players data)\<lparr>black := Some playerId\<rparr>,
                                              status := ACTIVE, version := version data + 1\<rparr>))
          else if white (players data) = None \<and> black (players data) \<noteq> None
          then (Inr (), db(gameId \<mapsto> data\<lparr>players := (players data)\<lparr>white := Some playerId\<rparr>,
                                              status := ACTIVE, version := version data + 1\<rparr>))
          else (Inl GameFull, db))"

text \<open>
  \<^verbatim>\<open>performMove\<close>. \<open>pieceCount\<close> is one of the four counters of the piece-counting loop;
  \<open>tExpire\<close> and \<open>tMove\<close> are the two readings of \<^verbatim>\<open>Date.now()\<close> in the transaction.
  \<open>moveOnBoard\<close>: every square of the move lies on the grid (the caller's contract for the
  reads and writes of the part before the transaction).
\<close>

definition pieceCount :: "BoardState \<Rightarrow> (Piece \<Rightarrow> bool) \<Rightarrow> nat" where
  "pieceCount board P =
     length (filter (\<lambda>rc. case cell board (fst rc) (snd rc) of None \<Rightarrow> False | Some p \<Rightarrow> P p)
               squares)"

definition oneDayMs :: int where
  "oneDayMs = 24 * 60 * 60 * 1000"

definition moveOnBoard :: "Move \<Rightarrow> bool" where
  "moveOnBoard move \<longleftrightarrow>
     inBoard (row (mfrom move)) (col (mfrom move)) \<and> inBoard (row (mto move)) (col (mto move)) \<and>
     list_all (\<lambda>c. inBoard (row c) (col c)) (captures move)"

definition performMove ::
  "Store \<Rightarrow> string \<Rightarrow> GameData \<Rightarrow> Move \<Rightarrow> PlayerColor \<Rightarrow> int \<Rightarrow> int
     \<Rightarrow> (ServiceError + unit) \<times> Store" where
  "performMove db gameId gameData move nextTurn tExpire tMove =
     (let currentBoard = gboard gameData;
          movingPiece = cell currentBoard (row (mfrom move)) (col (mfrom move));
          isPawnMove = (case movingPiece of None \<Rightarrow> False | Some p \<Rightarrow> \<not> isKing p);
          isCapture = (length (captures move) > 0);
          newBoard = applyMove currentBoard move;
          nextPlayerMoves = calculateAllowedMoves newBoard nextTurn;
          status1 = (if length nextPlayerMoves = 0 then FINISHED else status gameData);
          winner1 = (if length nextPlayerMoves = 0 then Some (gturn gameData) else None);
          whiteCount = pieceCount newBoard (\<lambda>p. color p = WHITE);
          whiteKings = pieceCount newBoard (\<lambda>p. color p = WHITE \<and> isKing p);
          blackCount = pieceCount newBoard (\<lambda>p. color p \<noteq> WHITE);
          blackKings = pieceCount newBoard (\<lambda>p. color p \<noteq> WHITE \<and> isKing p);
          status2 = (if status1 \<noteq> FINISHED \<and> whiteCount = 1 \<and> whiteKings = 1 \<and>
                        blackCount = 1 \<and> blackKings = 1
                     then DRAW else status1)
      in case db gameId of
           None \<Rightarrow> (Inl GameMissing, db)
         | Some freshData \<Rightarrow>
             if version freshData \<noteq> version gameData then (Inl VersionConflict, db)
             else
               (let newHalfMoveClock =
                      (if isPawnMove \<or> isCapture then 0 else halfMoveClock freshData + 1);
                    status3 = (if status2 \<noteq> FINISHED \<and> status2 \<noteq> DRAW \<and> newHalfMoveClock \<ge> 60
                               then DRAW else status2);
                    newExpireAt = tExpire + oneDayMs;
                    prev = \<lparr>ps_board = gboard freshData, ps_turn = gturn freshData,
                            ps_halfMoveClock = halfMoveClock freshData,
                            ps_lastMove = lastMove freshData\<rparr>
                in (Inr (),
                    db(gameId \<mapsto> freshData\<lparr>
                         gboard := newBoard,
                         gturn := nextTurn,
                         lastMove := Some \<lparr>lm_from = mfrom move, lm_to = mto move,
                                            lm_path = Some (path move), lm_ts = tMove\<rparr>,
                         halfMoveClock := newHalfMoveClock,
                         status := status3,
                         winner := winner1,
                         version := version freshData + 1,
                         expireAt := newExpireAt,
                         previousState := Some prev,
                         takebackRequest := None\<rparr>))))"

text \<open>
  \<^verbatim>\<open>resolveTakeback\<close>. src/services/gameService.ts holds two revisions of the function.
  This is the earlier one (lines 211-243), which clears the request without touching the
  version when the takeback is declined or there is no \<^verbatim>\<open>previousState\<close>. The function
  returns nothing and does not throw in its transaction, so the model returns the store.
\<close>

definition resolveTakeback :: "Store \<Rightarrow> string \<Rightarrow> bool \<Rightarrow> Store" where
  "resolveTakeback db gameId accepted =
     (case db gameId of
        None \<Rightarrow> db
      | Some data \<Rightarrow>
          if \<not> accepted then db(gameId \<mapsto> data\<lparr>takebackRequest := None\<rparr>)
          else
            (case previousState data of
               Some prev \<Rightarrow>
                 db(gameId \<mapsto> data\<lparr>
                      gboard := ps_board prev,
                      gturn := ps_turn prev,
                      halfMoveClock := ps_halfMoveClock prev,
                      lastMove := ps_lastMove prev,
                      previousState := None,
                      takebackRequest := None,
                      version := version data + 1\<rparr>)
             | None \<Rightarrow> db(gameId \<mapsto> data\<lparr>takebackRequest := None\<rparr>)))"

text \<open>
  The current revision of \<^verbatim>\<open>resolveTakeback\<close> (lines 689-723 of the same file, the
  revision whose exports are the ones src/App.tsx imports): every path of the transaction
  writes \<^verbatim>\<open>version: data.version + 1\<close>.
\<close>

definition resolveTakeback_rev :: "Store \<Rightarrow> string \<Rightarrow> bool \<Rightarrow> Store" where
  "resolveTakeback_rev db gameId accepted =
     (case db gameId of
        None \<Rightarrow> db
      | Some data \<Rightarrow>
          if \<not> accepted
          then db(gameId \<mapsto> data\<lparr>takebackRequest := None, version := version data + 1\<rparr>)
          else
            (case previousState data of
               Some prev \<Rightarrow>
                 db(gameId \<mapsto> data\<lparr>
                      gboard := ps_board prev,
                      gturn := ps_turn prev,
                      halfMoveClock := ps_halfMoveClock prev,
                      lastMove := ps_lastMove prev,
                      previousState := None,
                      takebackRequest := None,
                      version := version data + 1\<rparr>)
             | None \<Rightarrow>
                 db(gameId \<mapsto> data\<lparr>takebackRequest := None, version := version data + 1\<rparr>)))"

text \<open>Records for the concrete scenarios.\<close>

definition newGame :: GameData where
  "newGame =
     \<lparr>gboard = initializeBoard, gturn = WHITE,
      players = \<lparr>white = Some ''alice'', black = Some ''bob''\<rparr>,
      status = ACTIVE, winner = None, version = 3, lastMove = None, halfMoveClock = 0,
      rematchId = None, createdAt = 1000, expireAt = 86401000, metadata = Some False,
      previousState = None, takebackRequest = None\<rparr>"

definition pendingGame :: GameData where
  "pendingGame = newGame\<lparr>takebackRequest := Some \<lparr>requesterId = ''alice'', tr_createdAt = 2000\<rparr>\<rparr>"

definition emptyGame :: GameData where
  "emptyGame = newGame\<lparr>players := \<lparr>white = None, black = None\<rparr>, status := WAITING, version := 0\<rparr>"

definition openingMove :: Move where
  "openingMove =
     \<lparr>mfrom = \<lparr>row = 5, col = 0\<rparr>, mto = \<lparr>row = 4, col = 1\<rparr>, captures = [],
      path = [\<lparr>row = 4, col = 1\<rparr>], becomesKing = False\<rparr>"

definition movedGame :: GameData where
  "movedGame =
     pendingGame\<lparr>gboard := applyMove initializeBoard openingMove, gturn := BLACK,
                  halfMoveClock := 0, version := 4,
                  previousState := Some \<lparr>ps_board = initializeBoard, ps_turn = WHITE,
                                         ps_halfMoveClock = 0, ps_lastMove = None\<rparr>\<rparr>"

text \<open>A dark square, by the test \<^verbatim>\<open>(row + col) % 2 === 1\<close> of \<^verbatim>\<open>initializeBoard\<close>.\<close>

definition dark :: "int \<Rightarrow> int \<Rightarrow> bool" where
  "dark r c \<longleftrightarrow> (r + c) mod 2 = 1"

text \<open>
  Playing a sequence of moves from a board: each step names the side to move and a move,
  which must be one of the moves \<open>calculateAllowedMoves\<close> returns for that side on the
  current board, and is applied with \<open>applyMove\<close>. \<open>darkOnly\<close> is the occupancy invariant
  on the 64 squares.
\<close>

fun playMoves :: "BoardState \<Rightarrow> (PlayerColor \<times> Move) list \<Rightarrow> BoardState option" where
  "playMoves board [] = Some board"
| "playMoves board (step # rest) =
     (if snd step \<in> set (calculateAllowedMoves board (fst step))
      then playMoves (applyMove board (snd step)) rest else None)"

definition darkOnly :: "BoardState \<Rightarrow> bool" where
  "darkOnly board =
     list_all (\<lambda>rc. case cell board (fst rc) (snd rc) of
                       None \<Rightarrow> True
                     | Some p \<Rightarrow> (fst rc + snd rc) mod 2 = 1) squares"

definition shortGame :: "(PlayerColor \<times> Move) list" where
  "shortGame =
     [(WHITE, \<lparr>mfrom = \<lparr>row = 5, col = 0\<rparr>, mto = \<lparr>row = 4, col = 1\<rparr>, captures = [],
               path = [\<lparr>row = 4, col = 1\<rparr>], becomesKing = False\<rparr>),
      (BLACK, \<lparr>mfrom = \<lparr>row = 2, col = 3\<rparr>, mto = \<lparr>row = 3, col = 2\<rparr>, captures = [],
               path = [\<lparr>row = 3, col = 2\<rparr>], becomesKing = False\<rparr>),
      (WHITE, \<lparr>mfrom = \<lparr>row = 4, col = 1\<rparr>, mto = \<lparr>row = 2, col = 3\<rparr>,
               captures = [\<lparr>row = 3, col = 2\<rparr>],
               path = [\<lparr>row = 2, col = 3\<rparr>], becomesKing = False\<rparr>)]"

section \<open>Move application on a heap of arrays\<close>

text \<open>
  \<^verbatim>\<open>applyMove\<close> on the heap. The source clones the board and then assigns to cells of
  the clone; whether the caller's board is left alone depends on which arrays those
  assignments reach. The heap is a list of objects, an address is an index into it, and
  allocation appends: a board is the address of a \<open>GridObj\<close> (the outer array, holding
  the addresses of its rows), a row is a \<open>RowObj\<close>. Pieces are never assigned to in place
  (\<^verbatim>\<open>applyMove\<close> builds a new object for the moved piece), so they are kept as values.
  \<open>readBoard\<close> reads a board off the heap, \<open>cloneBoardH\<close> is \<^verbatim>\<open>cloneBoard\<close>,
  \<open>writeH\<close> the assignment \<^verbatim>\<open>newBoard[r][c] = v\<close>, \<open>applyMoveH\<close> is \<^verbatim>\<open>applyMove\<close>.
\<close>

datatype Obj = RowObj "Piece option list" | GridObj "nat list"

type_synonym Heap = "Obj list"

definition rowAt :: "Heap \<Rightarrow> nat \<Rightarrow> Piece option list" where
  "rowAt h a = (case h ! a of RowObj cs \<Rightarrow> cs | GridObj rs \<Rightarrow> [])"

definition gridAt :: "Heap \<Rightarrow> nat \<Rightarrow> nat list" where
  "gridAt h g = (case h ! g of GridObj rs \<Rightarrow> rs | RowObj cs \<Rightarrow> [])"

definition readBoard :: "Heap \<Rightarrow> nat \<Rightarrow> BoardState" where
  "readBoard h g = map (rowAt h) (gridAt h g)"

definition wfH :: "Heap \<Rightarrow> nat \<Rightarrow> bool" where
  "wfH h g \<longleftrightarrow>
     g < length h \<and>
     (case h ! g of
        GridObj rs \<Rightarrow>
          length rs = 8 \<and>
          list_all (\<lambda>a. a < length h \<and>
                         (case h ! a of RowObj cs \<Rightarrow> length cs = 8 | GridObj rs' \<Rightarrow> False)) rs
      | RowObj cs \<Rightarrow> False)"

definition cloneBoardH :: "Heap \<Rightarrow> nat \<Rightarrow> Heap \<times> nat" where
  "cloneBoardH h g =
     (let rs = gridAt h g;
          h1 = h @ map (\<lambda>a. RowObj (map (\<lambda>p. case p of
                                                 Some q \<Rightarrow> Some \<lparr>color = color q, isKing = isKing q\<rparr>
                                               | None \<Rightarrow> None) (rowAt h a))) rs;
          h2 = h1 @ [GridObj [length h ..< length h + length rs]]
      in (h2, length h1))"

definition writeH :: "Heap \<Rightarrow> nat \<Rightarrow> int \<Rightarrow> int \<Rightarrow> Piece option \<Rightarrow> Heap" where
  "writeH h g r c v =
     (if 0 \<le> r \<and> r < int (length (gridAt h g)) \<and> 0 \<le> c \<and>
         c < int (length (rowAt h (gridAt h g ! nat r)))
      then h[gridAt h g ! nat r := RowObj ((rowAt h (gridAt h g ! nat r))[nat c := v])]
      else h)"

definition applyMoveH :: "Heap \<Rightarrow> nat \<Rightarrow> Move \<Rightarrow> Heap \<times> nat" where
  "applyMoveH h board move =
     (let cl = cloneBoardH h board; h1 = fst cl; newBoard = snd cl in
      case cell (readBoard h1 newBoard) (row (mfrom move)) (col (mfrom move)) of
        None \<Rightarrow> (h1, newBoard)
      | Some p \<Rightarrow>
          (let h2 = writeH h1 newBoard (row (mfrom move)) (col (mfrom move)) None;
               h3 = writeH h2 newBoard (row (mto move)) (col (mto move))
                      (Some \<lparr>color = color p, isKing = (isKing p \<or> becomesKing move)\<rparr>);
               h4 = fold (\<lambda>c hh. writeH hh newBoard (row c) (col c) None) (captures move) h3
           in (h4, newBoard)))"

text \<open>A heap that holds one board: its eight rows and then its grid, at address 8.\<close>

definition heapOfBoard :: "BoardState \<Rightarrow> Heap" where
  "heapOfBoard board = map RowObj board @ [GridObj [0 ..< length board]]"

text \<open>
  The state of the heap while \<^verbatim>\<open>applyMove\<close> writes: the grid at \<open>g\<close> and its rows are
  objects at addresses from \<open>n\<close> on, the rows at distinct addresses.
\<close>

definition freshGrid :: "nat \<Rightarrow> Heap \<Rightarrow> nat \<Rightarrow> bool" where
  "freshGrid n h g \<longleftrightarrow>
     n \<le> g \<and> g < length h \<and> (\<exists>rs. h ! g = GridObj rs) \<and> distinct (gridAt h g) \<and>
     (\<forall>a \<in> set (gridAt h g). n \<le> a \<and> a < length h \<and> a \<noteq> g \<and> (\<exists>cs. h ! a = RowObj cs))"

section \<open>Properties of the rule engine\<close>

subsection \<open>The capture search as steps\<close>

lemma continue_king:
  "isKing piece \<Longrightarrow> continue board piece caps cip pth start =
     (\<lambda>t. let newCaptures = caps @ [fst t];
                 newCapturedInPath = cip @ [fst t];
                 newPath = pth @ [snd t];
                 subsequentMoves =
                   getCaptureMoves board (snd t) piece newCaptures newCapturedInPath newPath
                     start
             in if length subsequentMoves > 0 then subsequentMoves
                else [\<lparr>mfrom = start, mto = snd t, captures = newCaptures,
                        path = newPath, becomesKing = True\<rparr>])"
  by (rule ext) (simp add: continue_def nextPiece_def Let_def)

lemma continue_pawn:
  "\<not> isKing piece \<Longrightarrow> continue board piece caps cip pth start =
     (\<lambda>t. let newCaptures = caps @ [fst t];
                 newCapturedInPath = cip @ [fst t];
                 newPath = pth @ [snd t];
                 reachedPromotionRow =
                   ((color piece = WHITE \<and> row (snd t) = 0) \<or>
                    (color piece = BLACK \<and> row (snd t) = 7));
                 nextPieceState = (if reachedPromotionRow then piece\<lparr>isKing := True\<rparr> else piece);
                 subsequentMoves =
                   getCaptureMoves board (snd t) nextPieceState newCaptures newCapturedInPath
                     newPath start
             in if length subsequentMoves > 0 then subsequentMoves
                else [\<lparr>mfrom = start, mto = snd t, captures = newCaptures,
                        path = newPath, becomesKing = (reachedPromotionRow \<or> isKing piece)\<rparr>])"
  by (rule ext) (simp add: continue_def nextPiece_def Let_def)

lemma getCaptureMoves_step:
  "getCaptureMoves board cur piece caps cip pth start =
     concat (map (\<lambda>d. concat (map (continue board piece caps cip pth start)
                                (targets board cur piece cip start d))) allDirections)"
proof (cases "isKing piece")
  case True
  show ?thesis
    by (subst getCaptureMoves.simps) (simp only: True if_True targets_def continue_king[OF True])
next
  case False
  show ?thesis
    by (subst getCaptureMoves.simps) (simp only: False if_False targets_def continue_pawn[OF False])
qed

text \<open>Concrete positions are evaluated through the step equation.\<close>

declare getCaptureMoves_step [code]

lemma getCaptureMoves_induct [case_names step]:
  assumes step: "\<And>board cur piece caps cip pth start.
      (\<And>d t. d \<in> set allDirections \<Longrightarrow> t \<in> set (targets board cur piece cip start d) \<Longrightarrow>
          P board (snd t) (nextPiece piece (snd t)) (caps @ [fst t]) (cip @ [fst t])
            (pth @ [snd t]) start) \<Longrightarrow>
      P board cur piece caps cip pth start"
  shows "P board cur piece caps cip pth start"
proof (induction board cur piece caps cip pth start rule: getCaptureMoves.induct)
  case (1 board currentPos piece currentCaptures capturedInPath currentPath originalStart)
  show ?case
  proof (rule step)
    fix d t
    assume d: "d \<in> set allDirections"
      and t: "t \<in> set (targets board currentPos piece capturedInPath originalStart d)"
    show "P board (snd t) (nextPiece piece (snd t)) (currentCaptures @ [fst t])
            (capturedInPath @ [fst t]) (currentPath @ [snd t]) originalStart"
    proof (cases "isKing piece")
      case True
      with t have "t \<in> set (kingTargets board currentPos piece capturedInPath originalStart d)"
        by (simp add: targets_def)
      from "1.IH"(1)[OF d True this refl refl refl] True show ?thesis
        by (simp add: nextPiece_def)
    next
      case False
      with t have "t \<in> set (pawnTargets board currentPos piece capturedInPath originalStart d)"
        by (simp add: targets_def)
      from "1.IH"(2)[OF d False this refl refl refl refl refl] False show ?thesis
        by (simp add: nextPiece_def)
    qed
  qed
qed

lemma in_getCaptureMoves:
  "m \<in> set (getCaptureMoves board cur piece caps cip pth start) \<longleftrightarrow>
     (\<exists>d \<in> set allDirections. \<exists>t \<in> set (targets board cur piece cip start d).
        m \<in> set (continue board piece caps cip pth start t))"
  by (subst getCaptureMoves_step) auto

lemma continue_nonempty: "continue board piece caps cip pth start t \<noteq> []"
  by (simp add: continue_def Let_def)

lemma concat_continue_empty:
  "concat (map (continue board piece caps cip pth start) ts) = [] \<longleftrightarrow> ts = []"
  by (cases ts) (simp_all add: continue_nonempty)

lemma getCaptureMoves_empty_iff:
  "getCaptureMoves board cur piece caps cip pth start = [] \<longleftrightarrow>
     (\<forall>d \<in> set allDirections. targets board cur piece cip start d = [])"
proof
  assume e: "getCaptureMoves board cur piece caps cip pth start = []"
  show "\<forall>d \<in> set allDirections. targets board cur piece cip start d = []"
  proof (intro ballI, rule ccontr)
    fix d
    assume d: "d \<in> set allDirections" and ne: "targets board cur piece cip start d \<noteq> []"
    from ne obtain t where t: "t \<in> set (targets board cur piece cip start d)"
      by (cases "targets board cur piece cip start d") auto
    obtain m where "m \<in> set (continue board piece caps cip pth start t)"
      using continue_nonempty[of board piece caps cip pth start t]
      by (cases "continue board piece caps cip pth start t") auto
    with d t have "m \<in> set (getCaptureMoves board cur piece caps cip pth start)"
      by (auto simp: in_getCaptureMoves)
    with e show False by simp
  qed
next
  assume "\<forall>d \<in> set allDirections. targets board cur piece cip start d = []"
  then have "\<And>m. m \<notin> set (getCaptureMoves board cur piece caps cip pth start)"
    by (auto simp: in_getCaptureMoves)
  then show "getCaptureMoves board cur piece caps cip pth start = []"
    by (cases "getCaptureMoves board cur piece caps cip pth start") auto
qed

lemma captures_extend:
  "m \<in> set (getCaptureMoves board cur piece caps cip pth start) \<Longrightarrow>
     \<exists>more. more \<noteq> [] \<and> captures m = caps @ more"
proof (induction board cur piece caps cip pth start rule: getCaptureMoves_induct)
  case (step board cur piece caps cip pth start)
  from step.prems obtain d t where d: "d \<in> set allDirections"
    and t: "t \<in> set (targets board cur piece cip start d)"
    and m: "m \<in> set (continue board piece caps cip pth start t)"
    by (auto simp: in_getCaptureMoves)
  show ?case
  proof (cases "getCaptureMoves board (snd t) (nextPiece piece (snd t)) (caps @ [fst t])
                  (cip @ [fst t]) (pth @ [snd t]) start = []")
    case True
    with m show ?thesis by (simp add: continue_def)
  next
    case False
    with m have "m \<in> set (getCaptureMoves board (snd t) (nextPiece piece (snd t)) (caps @ [fst t])
                  (cip @ [fst t]) (pth @ [snd t]) start)"
      by (simp add: continue_def)
    from step.IH[OF d t this] show ?thesis by auto
  qed
qed


subsection \<open>Simple moves and the scan of the board\<close>

lemma kingSlide_captures: "m \<in> set (kingSlide board frm r c d) \<Longrightarrow> captures m = []"
proof (induction board frm r c d rule: kingSlide.induct)
  case (1 board frm r c d)
  from "1.prems" show ?case
    by (subst (asm) kingSlide.simps) (auto split: if_splits dest: "1.IH")
qed

lemma getSimpleMoves_captures: "m \<in> set (getSimpleMoves board frm piece) \<Longrightarrow> captures m = []"
  by (auto simp: getSimpleMoves_def Let_def split: if_splits dest: kingSlide_captures)

lemma scanSquare_flag:
  "snd (scanSquare board turn rc acc) \<longleftrightarrow> snd acc \<or> captureAt board turn rc"
  by (auto simp: scanSquare_def captureAt_def Let_def split: option.splits)

lemma fold_scanSquare_flag:
  "snd (fold (scanSquare board turn) sqs acc) \<longleftrightarrow> snd acc \<or> list_ex (captureAt board turn) sqs"
  by (induction sqs arbitrary: acc) (auto simp: scanSquare_flag)

lemma scanSquare_simple:
  assumes "\<not> snd (scanSquare board turn rc acc)" and "\<forall>m \<in> set (fst acc). captures m = []"
  shows "\<forall>m \<in> set (fst (scanSquare board turn rc acc)). captures m = []"
  using assms
  by (auto simp: scanSquare_def Let_def split: option.splits if_splits
           dest: getSimpleMoves_captures)

lemma fold_scanSquare_simple:
  assumes "\<not> snd (fold (scanSquare board turn) sqs acc)"
    and "\<forall>m \<in> set (fst acc). captures m = []"
  shows "\<forall>m \<in> set (fst (fold (scanSquare board turn) sqs acc)). captures m = []"
  using assms
proof (induction sqs arbitrary: acc)
  case Nil
  then show ?case by simp
next
  case (Cons rc sqs)
  from Cons.prems(1) have n: "\<not> snd (scanSquare board turn rc acc)"
    by (simp add: fold_scanSquare_flag)
  from Cons.IH[of "scanSquare board turn rc acc"] Cons.prems(1)
    scanSquare_simple[OF n Cons.prems(2)]
  show ?case by simp
qed

subsection \<open>Mandatory capture\<close>

text \<open>
  Claim C1. For every 8x8 board and side to move: if some piece of that side has at least
  one capture chain, every move returned by \<open>calculateAllowedMoves\<close> has a non-empty
  \<open>captures\<close> list (no simple move is returned); otherwise every returned move has an
  empty \<open>captures\<close> list.
\<close>

theorem mandatory_capture:
  assumes "wf_board board"
  shows "(anyCapture board turn \<longrightarrow>
            (\<forall>m \<in> set (calculateAllowedMoves board turn). captures m \<noteq> [])) \<and>
         (\<not> anyCapture board turn \<longrightarrow>
            (\<forall>m \<in> set (calculateAllowedMoves board turn). captures m = []))"
proof -
  let ?res = "fold (scanSquare board turn) squares ([], False)"
  have flag: "snd ?res \<longleftrightarrow> anyCapture board turn"
    by (simp add: fold_scanSquare_flag anyCapture_def)
  show ?thesis
  proof (cases "anyCapture board turn")
    case True
    with flag have "calculateAllowedMoves board turn =
        filter (\<lambda>m. length (captures m) > 0) (fst ?res)"
      by (simp add: calculateAllowedMoves_def Let_def)
    with True show ?thesis by simp
  next
    case False
    with flag have eq: "calculateAllowedMoves board turn = fst ?res"
      by (simp add: calculateAllowedMoves_def Let_def)
    from False flag have "\<not> snd ?res" by simp
    from fold_scanSquare_simple[OF this] eq False show ?thesis by simp
  qed
qed

theorem mandatory_capture_witness:
  "wf_board doubleJumpBoard \<and> anyCapture doubleJumpBoard WHITE \<and>
   list_all (\<lambda>m. captures m \<noteq> []) (calculateAllowedMoves doubleJumpBoard WHITE) \<and>
   wf_board initializeBoard \<and> \<not> anyCapture initializeBoard WHITE \<and>
   list_all (\<lambda>m. captures m = []) (calculateAllowedMoves initializeBoard WHITE)"
proof -
  have 1: "wf_board doubleJumpBoard" by code_simp
  have 2: "anyCapture doubleJumpBoard WHITE" by code_simp
  have 3: "wf_board initializeBoard" by code_simp
  have 4: "\<not> anyCapture initializeBoard WHITE" by code_simp
  from mandatory_capture[OF 1, of WHITE] 2
  have 5: "list_all (\<lambda>m. captures m \<noteq> []) (calculateAllowedMoves doubleJumpBoard WHITE)"
    unfolding list_all_iff by blast
  from mandatory_capture[OF 3, of WHITE] 4
  have 6: "list_all (\<lambda>m. captures m = []) (calculateAllowedMoves initializeBoard WHITE)"
    unfolding list_all_iff by blast
  from 1 2 3 4 5 6 show ?thesis by blast
qed

subsection \<open>Invariants of the capture search\<close>

lemma targets_fresh:
  "t \<in> set (targets board cur piece cip start d) \<Longrightarrow>
     cell board (row (fst t)) (col (fst t)) \<noteq> None \<and> fst t \<notin> set cip"
  by (auto simp: targets_def dest: kingTargets_fresh pawnTargets_fresh split: if_splits)

lemma continue_cases:
  assumes "m \<in> set (continue board piece caps cip pth start t)"
  obtains (leaf)
      "getCaptureMoves board (snd t) (nextPiece piece (snd t)) (caps @ [fst t])
         (cip @ [fst t]) (pth @ [snd t]) start = []"
      "m = \<lparr>mfrom = start, mto = snd t, captures = caps @ [fst t], path = pth @ [snd t],
             becomesKing = isKing (nextPiece piece (snd t))\<rparr>"
    | (deeper)
      "m \<in> set (getCaptureMoves board (snd t) (nextPiece piece (snd t)) (caps @ [fst t])
                  (cip @ [fst t]) (pth @ [snd t]) start)"
  using assms by (auto simp: continue_def Let_def split: if_splits)

lemma captures_distinct_gen:
  "m \<in> set (getCaptureMoves board cur piece caps cip pth start) \<Longrightarrow>
     distinct caps \<Longrightarrow> set caps \<subseteq> set cip \<Longrightarrow> distinct (captures m)"
proof (induction board cur piece caps cip pth start rule: getCaptureMoves_induct)
  case (step board cur piece caps cip pth start)
  from step.prems(1) obtain d t where d: "d \<in> set allDirections"
    and t: "t \<in> set (targets board cur piece cip start d)"
    and m: "m \<in> set (continue board piece caps cip pth start t)"
    by (auto simp: in_getCaptureMoves)
  from targets_fresh[OF t] step.prems(3) have fresh: "fst t \<notin> set caps" by auto
  from m show ?case
  proof (cases rule: continue_cases)
    case leaf
    with fresh step.prems(2) show ?thesis by simp
  next
    case deeper
    from step.IH[OF d t deeper] fresh step.prems(2,3) show ?thesis by auto
  qed
qed

lemma path_extend:
  "m \<in> set (getCaptureMoves board cur piece caps cip pth start) \<Longrightarrow>
     \<exists>more. more \<noteq> [] \<and> path m = pth @ more"
proof (induction board cur piece caps cip pth start rule: getCaptureMoves_induct)
  case (step board cur piece caps cip pth start)
  from step.prems obtain d t where d: "d \<in> set allDirections"
    and t: "t \<in> set (targets board cur piece cip start d)"
    and m: "m \<in> set (continue board piece caps cip pth start t)"
    by (auto simp: in_getCaptureMoves)
  from m show ?case
  proof (cases rule: continue_cases)
    case leaf
    then show ?thesis by simp
  next
    case deeper
    from step.IH[OF d t deeper] show ?thesis by auto
  qed
qed

lemma mfrom_start:
  "m \<in> set (getCaptureMoves board cur piece caps cip pth start) \<Longrightarrow> mfrom m = start"
proof (induction board cur piece caps cip pth start rule: getCaptureMoves_induct)
  case (step board cur piece caps cip pth start)
  from step.prems obtain d t where d: "d \<in> set allDirections"
    and t: "t \<in> set (targets board cur piece cip start d)"
    and m: "m \<in> set (continue board piece caps cip pth start t)"
    by (auto simp: in_getCaptureMoves)
  from m show ?case
  proof (cases rule: continue_cases)
    case leaf
    then show ?thesis by simp
  next
    case deeper
    from step.IH[OF d t deeper] show ?thesis .
  qed
qed

lemma nextPiece_color [simp]: "color (nextPiece piece land) = color piece"
  by (simp add: nextPiece_def)

lemma nextPiece_eta:
  "\<lparr>color = color piece, isKing = isKing (nextPiece piece land)\<rparr> = nextPiece piece land"
  by (simp add: nextPiece_def)

lemma leaf_gen:
  "m \<in> set (getCaptureMoves board cur piece caps cip pth start) \<Longrightarrow>
     getCaptureMoves board (mto m) \<lparr>color = color piece, isKing = becomesKing m\<rparr> (captures m)
       (cip @ drop (length caps) (captures m)) (path m) start = []"
proof (induction board cur piece caps cip pth start rule: getCaptureMoves_induct)
  case (step board cur piece caps cip pth start)
  from step.prems obtain d t where d: "d \<in> set allDirections"
    and t: "t \<in> set (targets board cur piece cip start d)"
    and m: "m \<in> set (continue board piece caps cip pth start t)"
    by (auto simp: in_getCaptureMoves)
  from m show ?case
  proof (cases rule: continue_cases)
    case leaf
    then show ?thesis by (simp add: nextPiece_eta)
  next
    case deeper
    from captures_extend[OF deeper] obtain more where
      more: "captures m = (caps @ [fst t]) @ more" by auto
    from step.IH[OF d t deeper] more show ?thesis by simp
  qed
qed

lemma king_moves_becomesKing:
  "m \<in> set (getCaptureMoves board cur piece caps cip pth start) \<Longrightarrow> isKing piece \<Longrightarrow>
     becomesKing m"
proof (induction board cur piece caps cip pth start rule: getCaptureMoves_induct)
  case (step board cur piece caps cip pth start)
  from step.prems(1) obtain d t where d: "d \<in> set allDirections"
    and t: "t \<in> set (targets board cur piece cip start d)"
    and m: "m \<in> set (continue board piece caps cip pth start t)"
    by (auto simp: in_getCaptureMoves)
  from step.prems(2) have k: "isKing (nextPiece piece (snd t))" by (simp add: nextPiece_def)
  from m show ?case
  proof (cases rule: continue_cases)
    case leaf
    with k show ?thesis by simp
  next
    case deeper
    from step.IH[OF d t deeper k] show ?thesis .
  qed
qed

lemma in_scanSquare:
  assumes "m \<in> set (fst (scanSquare board turn rc acc))"
  shows "m \<in> set (fst acc) \<or>
         (\<exists>piece. cell board (fst rc) (snd rc) = Some piece \<and> color piece = turn \<and>
            (m \<in> set (getCaptureMoves board \<lparr>row = fst rc, col = snd rc\<rparr> piece [] [] []
                        \<lparr>row = fst rc, col = snd rc\<rparr>) \<or>
             m \<in> set (getSimpleMoves board \<lparr>row = fst rc, col = snd rc\<rparr> piece)))"
  using assms by (auto simp: scanSquare_def Let_def split: option.splits if_splits)

lemma in_fold_scanSquare:
  assumes "m \<in> set (fst (fold (scanSquare board turn) sqs acc))"
  shows "m \<in> set (fst acc) \<or>
         (\<exists>rc \<in> set sqs. \<exists>piece. cell board (fst rc) (snd rc) = Some piece \<and> color piece = turn \<and>
            (m \<in> set (getCaptureMoves board \<lparr>row = fst rc, col = snd rc\<rparr> piece [] [] []
                        \<lparr>row = fst rc, col = snd rc\<rparr>) \<or>
             m \<in> set (getSimpleMoves board \<lparr>row = fst rc, col = snd rc\<rparr> piece)))"
  using assms
proof (induction sqs arbitrary: acc)
  case Nil
  then show ?case by simp
next
  case (Cons rc sqs)
  from Cons.prems have "m \<in> set (fst (fold (scanSquare board turn) sqs (scanSquare board turn rc acc)))"
    by simp
  from Cons.IH[OF this] show ?case
  proof
    assume "m \<in> set (fst (scanSquare board turn rc acc))"
    from in_scanSquare[OF this] show ?thesis by auto
  next
    assume "\<exists>rc \<in> set sqs. \<exists>piece. cell board (fst rc) (snd rc) = Some piece \<and> color piece = turn \<and>
            (m \<in> set (getCaptureMoves board \<lparr>row = fst rc, col = snd rc\<rparr> piece [] [] []
                        \<lparr>row = fst rc, col = snd rc\<rparr>) \<or>
             m \<in> set (getSimpleMoves board \<lparr>row = fst rc, col = snd rc\<rparr> piece))"
    then show ?thesis by auto
  qed
qed

lemma in_calculateAllowedMoves:
  assumes "m \<in> set (calculateAllowedMoves board turn)"
  shows "\<exists>rc \<in> set squares. \<exists>piece. cell board (fst rc) (snd rc) = Some piece \<and> color piece = turn \<and>
            (m \<in> set (getCaptureMoves board \<lparr>row = fst rc, col = snd rc\<rparr> piece [] [] []
                        \<lparr>row = fst rc, col = snd rc\<rparr>) \<or>
             m \<in> set (getSimpleMoves board \<lparr>row = fst rc, col = snd rc\<rparr> piece))"
proof -
  from assms have "m \<in> set (fst (fold (scanSquare board turn) squares ([], False)))"
    by (auto simp: calculateAllowedMoves_def Let_def split: if_splits)
  from in_fold_scanSquare[OF this] show ?thesis by simp
qed

text \<open>
  Claim C6. For every move returned by \<open>calculateAllowedMoves\<close> on an 8x8 board, no
  position occurs twice in its \<open>captures\<close> list: a piece captured within a chain is not
  captured again in that chain.
\<close>

theorem no_double_capture:
  assumes "wf_board board" and "m \<in> set (calculateAllowedMoves board turn)"
  shows "distinct (captures m)"
proof -
  from in_calculateAllowedMoves[OF assms(2)] obtain rc piece where
    "m \<in> set (getCaptureMoves board \<lparr>row = fst rc, col = snd rc\<rparr> piece [] [] []
                \<lparr>row = fst rc, col = snd rc\<rparr>) \<or>
     m \<in> set (getSimpleMoves board \<lparr>row = fst rc, col = snd rc\<rparr> piece)"
    by blast
  then show ?thesis
  proof
    assume "m \<in> set (getCaptureMoves board \<lparr>row = fst rc, col = snd rc\<rparr> piece [] [] []
                \<lparr>row = fst rc, col = snd rc\<rparr>)"
    from captures_distinct_gen[OF this] show ?thesis by simp
  next
    assume "m \<in> set (getSimpleMoves board \<lparr>row = fst rc, col = snd rc\<rparr> piece)"
    from getSimpleMoves_captures[OF this] show ?thesis by simp
  qed
qed

theorem no_double_capture_witness:
  "wf_board doubleJumpBoard \<and> doubleJumpMove \<in> set (calculateAllowedMoves doubleJumpBoard WHITE) \<and>
   distinct (captures doubleJumpMove)"
proof -
  have 1: "wf_board doubleJumpBoard" by code_simp
  have 2: "doubleJumpMove \<in> set (calculateAllowedMoves doubleJumpBoard WHITE)" by code_simp
  from no_double_capture[OF 1 2] 1 2 show ?thesis by simp
qed

lemma prefix_not_emitted:
  assumes t: "t \<in> set (targets board cur piece cip start d)"
    and sub: "getCaptureMoves board (snd t) (nextPiece piece (snd t)) (caps @ [fst t])
                (cip @ [fst t]) (pth @ [snd t]) start \<noteq> []"
    and m: "m \<in> set (getCaptureMoves board cur piece caps cip pth start)"
  shows "\<not> (captures m = caps @ [fst t] \<and> path m = pth @ [snd t])"
proof
  assume eq: "captures m = caps @ [fst t] \<and> path m = pth @ [snd t]"
  from m obtain d' t' where t': "t' \<in> set (targets board cur piece cip start d')"
    and m': "m \<in> set (continue board piece caps cip pth start t')"
    by (auto simp: in_getCaptureMoves)
  from m' show False
  proof (cases rule: continue_cases)
    case leaf
    from leaf(2) eq have "fst t' = fst t" "snd t' = snd t" by simp_all
    then have "t' = t" by (simp add: prod_eq_iff)
    with leaf(1) sub show False by simp
  next
    case deeper
    from path_extend[OF deeper] obtain more where "more \<noteq> []" "path m = (pth @ [snd t']) @ more"
      by auto
    with eq show False by (cases more) auto
  qed
qed

text \<open>
  Claim C5. The capture search emits a move only at leaves. First, from the final state
  of every returned move (landing square, piece state, captured squares, path) the search
  finds no further capture. Second, whenever the recursive call for a valid capture \<open>t\<close>
  returns a non-empty list, all of its longer chains are returned and no returned move is
  the shorter chain that stops on that landing square.
\<close>

theorem capture_search_emits_only_leaves:
  assumes "wf_board board" and "inBoard (row cur) (col cur)"
  shows "(\<forall>m \<in> set (getCaptureMoves board cur piece caps cip pth start).
            getCaptureMoves board (mto m) \<lparr>color = color piece, isKing = becomesKing m\<rparr>
              (captures m) (cip @ drop (length caps) (captures m)) (path m) start = []) \<and>
         (\<forall>d \<in> set allDirections. \<forall>t \<in> set (targets board cur piece cip start d).
            getCaptureMoves board (snd t) (nextPiece piece (snd t)) (caps @ [fst t])
              (cip @ [fst t]) (pth @ [snd t]) start \<noteq> [] \<longrightarrow>
            set (getCaptureMoves board (snd t) (nextPiece piece (snd t)) (caps @ [fst t])
                   (cip @ [fst t]) (pth @ [snd t]) start)
              \<subseteq> set (getCaptureMoves board cur piece caps cip pth start) \<and>
            (\<forall>m \<in> set (getCaptureMoves board cur piece caps cip pth start).
               \<not> (captures m = caps @ [fst t] \<and> path m = pth @ [snd t])))"
proof (intro conjI ballI impI)
  fix m
  assume "m \<in> set (getCaptureMoves board cur piece caps cip pth start)"
  from leaf_gen[OF this]
  show "getCaptureMoves board (mto m) \<lparr>color = color piece, isKing = becomesKing m\<rparr>
          (captures m) (cip @ drop (length caps) (captures m)) (path m) start = []" .
next
  fix d t
  assume d: "d \<in> set allDirections" and t: "t \<in> set (targets board cur piece cip start d)"
    and sub: "getCaptureMoves board (snd t) (nextPiece piece (snd t)) (caps @ [fst t])
                (cip @ [fst t]) (pth @ [snd t]) start \<noteq> []"
  from sub have "continue board piece caps cip pth start t =
      getCaptureMoves board (snd t) (nextPiece piece (snd t)) (caps @ [fst t])
        (cip @ [fst t]) (pth @ [snd t]) start"
    by (simp add: continue_def)
  then have "\<And>x. x \<in> set (getCaptureMoves board (snd t) (nextPiece piece (snd t)) (caps @ [fst t])
                   (cip @ [fst t]) (pth @ [snd t]) start) \<Longrightarrow>
              x \<in> set (getCaptureMoves board cur piece caps cip pth start)"
    using d t by (subst in_getCaptureMoves) (intro bexI[of _ d] bexI[of _ t], simp_all)
  then show "set (getCaptureMoves board (snd t) (nextPiece piece (snd t)) (caps @ [fst t])
                   (cip @ [fst t]) (pth @ [snd t]) start)
              \<subseteq> set (getCaptureMoves board cur piece caps cip pth start)"
    by (rule subsetI)
next
  fix d t m
  assume "t \<in> set (targets board cur piece cip start d)"
    and "getCaptureMoves board (snd t) (nextPiece piece (snd t)) (caps @ [fst t])
                (cip @ [fst t]) (pth @ [snd t]) start \<noteq> []"
    and "m \<in> set (getCaptureMoves board cur piece caps cip pth start)"
  then show "\<not> (captures m = caps @ [fst t] \<and> path m = pth @ [snd t])"
    by (rule prefix_not_emitted)
qed

theorem capture_search_emits_only_leaves_witness:
  "wf_board doubleJumpBoard \<and> inBoard 5 4 \<and>
   doubleJumpMove \<in> set (getCaptureMoves doubleJumpBoard \<lparr>row = 5, col = 4\<rparr> whitePawn [] [] []
                          \<lparr>row = 5, col = 4\<rparr>) \<and>
   getCaptureMoves doubleJumpBoard \<lparr>row = 1, col = 0\<rparr> whitePawn
     [\<lparr>row = 4, col = 3\<rparr>, \<lparr>row = 2, col = 1\<rparr>] [\<lparr>row = 4, col = 3\<rparr>, \<lparr>row = 2, col = 1\<rparr>]
     [\<lparr>row = 3, col = 2\<rparr>, \<lparr>row = 1, col = 0\<rparr>] \<lparr>row = 5, col = 4\<rparr> = [] \<and>
   UpLeft \<in> set allDirections \<and>
   (\<lparr>row = 4, col = 3\<rparr>, \<lparr>row = 3, col = 2\<rparr>)
     \<in> set (targets doubleJumpBoard \<lparr>row = 5, col = 4\<rparr> whitePawn [] \<lparr>row = 5, col = 4\<rparr> UpLeft) \<and>
   getCaptureMoves doubleJumpBoard \<lparr>row = 3, col = 2\<rparr> whitePawn [\<lparr>row = 4, col = 3\<rparr>]
     [\<lparr>row = 4, col = 3\<rparr>] [\<lparr>row = 3, col = 2\<rparr>] \<lparr>row = 5, col = 4\<rparr> \<noteq> [] \<and>
   list_all (\<lambda>m. \<not> (captures m = [\<lparr>row = 4, col = 3\<rparr>] \<and> path m = [\<lparr>row = 3, col = 2\<rparr>]))
     (getCaptureMoves doubleJumpBoard \<lparr>row = 5, col = 4\<rparr> whitePawn [] [] []
        \<lparr>row = 5, col = 4\<rparr>) \<and>
   calculateAllowedMoves doubleJumpBoard WHITE = [doubleJumpMove]"
proof -
  let ?s = "\<lparr>row = 5, col = 4\<rparr>"
  let ?t = "(\<lparr>row = 4, col = 3\<rparr>, \<lparr>row = 3, col = 2\<rparr>)"
  have 1: "wf_board doubleJumpBoard" by code_simp
  have 2: "inBoard (row ?s) (col ?s)" by code_simp
  have 3: "doubleJumpMove \<in> set (getCaptureMoves doubleJumpBoard ?s whitePawn [] [] [] ?s)"
    by code_simp
  have 4: "UpLeft \<in> set allDirections" by code_simp
  have 5: "?t \<in> set (targets doubleJumpBoard ?s whitePawn [] ?s UpLeft)" by code_simp
  have 6: "getCaptureMoves doubleJumpBoard (snd ?t) (nextPiece whitePawn (snd ?t)) ([] @ [fst ?t])
             ([] @ [fst ?t]) ([] @ [snd ?t]) ?s \<noteq> []" by code_simp
  have 7: "calculateAllowedMoves doubleJumpBoard WHITE = [doubleJumpMove]" by code_simp
  have 8: "nextPiece whitePawn (snd ?t) = whitePawn" by code_simp
  have 9: "\<lparr>color = color whitePawn, isKing = becomesKing doubleJumpMove\<rparr> = whitePawn"
    by code_simp
  note T = capture_search_emits_only_leaves[OF 1 2, of whitePawn "[]" "[]" "[]" ?s]
  from T 3 have a: "getCaptureMoves doubleJumpBoard (mto doubleJumpMove)
      \<lparr>color = color whitePawn, isKing = becomesKing doubleJumpMove\<rparr> (captures doubleJumpMove)
      ([] @ drop (length ([] :: Position list)) (captures doubleJumpMove)) (path doubleJumpMove) ?s = []"
    by blast
  from T 4 5 6 have b: "\<forall>m \<in> set (getCaptureMoves doubleJumpBoard ?s whitePawn [] [] [] ?s).
      \<not> (captures m = [] @ [fst ?t] \<and> path m = [] @ [snd ?t])"
    by blast
  from a 9 have a': "getCaptureMoves doubleJumpBoard \<lparr>row = 1, col = 0\<rparr> whitePawn
     [\<lparr>row = 4, col = 3\<rparr>, \<lparr>row = 2, col = 1\<rparr>] [\<lparr>row = 4, col = 3\<rparr>, \<lparr>row = 2, col = 1\<rparr>]
     [\<lparr>row = 3, col = 2\<rparr>, \<lparr>row = 1, col = 0\<rparr>] \<lparr>row = 5, col = 4\<rparr> = []"
    by (simp add: doubleJumpMove_def)
  from 1 2 3 4 5 6 7 8 a' b show ?thesis by (simp add: inBoard_def BOARD_SIZE_def list_all_iff)
qed

subsection \<open>Promotion in the middle of a chain\<close>

lemma continue_promoted:
  assumes "\<not> isKing piece"
    and "row (snd t) = (if color piece = WHITE then 0 else 7)"
  shows "continue board piece caps cip pth start t =
     (let sub = getCaptureMoves board (snd t) (piece\<lparr>isKing := True\<rparr>) (caps @ [fst t])
                  (cip @ [fst t]) (pth @ [snd t]) start
      in if sub \<noteq> [] then sub
         else [\<lparr>mfrom = start, mto = snd t, captures = caps @ [fst t], path = pth @ [snd t],
                 becomesKing = True\<rparr>])"
proof -
  from assms have "nextPiece piece (snd t) = piece\<lparr>isKing := True\<rparr>"
    by (cases "color piece") (simp_all add: nextPiece_def)
  then show ?thesis by (simp add: continue_def Let_def)
qed

lemma continue_becomesKing:
  assumes "isKing (nextPiece piece (snd t))"
    and "m \<in> set (continue board piece caps cip pth start t)"
  shows "becomesKing m"
  using assms(2)
proof (cases rule: continue_cases)
  case leaf
  with assms(1) show ?thesis by simp
next
  case deeper
  from king_moves_becomesKing[OF deeper assms(1)] show ?thesis .
qed

lemma continue_path:
  assumes "m \<in> set (continue board piece caps cip pth start t)"
  shows "take (Suc (length pth)) (path m) = pth @ [snd t]"
  using assms
proof (cases rule: continue_cases)
  case leaf
  then show ?thesis by simp
next
  case deeper
  from path_extend[OF deeper] show ?thesis by auto
qed

text \<open>
  Claim C4. A simple piece that jumps onto its promotion row (row 0 for WHITE, row 7 for
  BLACK) in the middle of a chain continues as a king: the continuation of that jump is the
  search from the landing square with the king flag set, that search takes its captures
  from the king's flying logic (\<open>kingTargets\<close>) in every direction, its moves are
  returned, and every returned move whose path runs through that landing square has
  \<open>becomesKing = True\<close>.
\<close>

theorem promotion_mid_chain:
  assumes "wf_board board" and "inBoard (row cur) (col cur)"
    and "\<not> isKing piece"
    and "d \<in> set allDirections"
    and "t \<in> set (pawnTargets board cur piece cip start d)"
    and "row (snd t) = (if color piece = WHITE then 0 else 7)"
  shows "continue board piece caps cip pth start t =
           (let sub = getCaptureMoves board (snd t) (piece\<lparr>isKing := True\<rparr>) (caps @ [fst t])
                        (cip @ [fst t]) (pth @ [snd t]) start
            in if sub \<noteq> [] then sub
               else [\<lparr>mfrom = start, mto = snd t, captures = caps @ [fst t],
                       path = pth @ [snd t], becomesKing = True\<rparr>]) \<and>
         getCaptureMoves board (snd t) (piece\<lparr>isKing := True\<rparr>) (caps @ [fst t])
             (cip @ [fst t]) (pth @ [snd t]) start =
           concat (map (\<lambda>d'. concat (map
               (continue board (piece\<lparr>isKing := True\<rparr>) (caps @ [fst t]) (cip @ [fst t])
                  (pth @ [snd t]) start)
               (kingTargets board (snd t) (piece\<lparr>isKing := True\<rparr>) (cip @ [fst t]) start d')))
             allDirections) \<and>
         set (continue board piece caps cip pth start t)
           \<subseteq> set (getCaptureMoves board cur piece caps cip pth start) \<and>
         (\<forall>m \<in> set (getCaptureMoves board cur piece caps cip pth start).
            take (Suc (length pth)) (path m) = pth @ [snd t] \<longrightarrow> becomesKing m)"
proof (intro conjI ballI impI)
  show "continue board piece caps cip pth start t =
           (let sub = getCaptureMoves board (snd t) (piece\<lparr>isKing := True\<rparr>) (caps @ [fst t])
                        (cip @ [fst t]) (pth @ [snd t]) start
            in if sub \<noteq> [] then sub
               else [\<lparr>mfrom = start, mto = snd t, captures = caps @ [fst t],
                       path = pth @ [snd t], becomesKing = True\<rparr>])"
    using assms(3,6) by (rule continue_promoted)
next
  show "getCaptureMoves board (snd t) (piece\<lparr>isKing := True\<rparr>) (caps @ [fst t])
             (cip @ [fst t]) (pth @ [snd t]) start =
           concat (map (\<lambda>d'. concat (map
               (continue board (piece\<lparr>isKing := True\<rparr>) (caps @ [fst t]) (cip @ [fst t])
                  (pth @ [snd t]) start)
               (kingTargets board (snd t) (piece\<lparr>isKing := True\<rparr>) (cip @ [fst t]) start d')))
             allDirections)"
    by (subst getCaptureMoves_step) (simp add: targets_def)
next
  from assms(3,5) have "t \<in> set (targets board cur piece cip start d)"
    by (simp add: targets_def)
  with assms(4) have "\<And>x. x \<in> set (continue board piece caps cip pth start t) \<Longrightarrow>
      x \<in> set (getCaptureMoves board cur piece caps cip pth start)"
    by (subst in_getCaptureMoves) (intro bexI[of _ d] bexI[of _ t], simp_all)
  then show "set (continue board piece caps cip pth start t)
           \<subseteq> set (getCaptureMoves board cur piece caps cip pth start)"
    by (rule subsetI)
next
  fix m
  assume m: "m \<in> set (getCaptureMoves board cur piece caps cip pth start)"
    and p: "take (Suc (length pth)) (path m) = pth @ [snd t]"
  from m obtain d' t' where t': "t' \<in> set (targets board cur piece cip start d')"
    and m': "m \<in> set (continue board piece caps cip pth start t')"
    by (auto simp: in_getCaptureMoves)
  from continue_path[OF m'] p have "snd t' = snd t" by simp
  with assms(3,6) have "isKing (nextPiece piece (snd t'))"
    by (cases "color piece") (simp_all add: nextPiece_def)
  from continue_becomesKing[OF this m'] show "becomesKing m" .
qed

theorem promotion_mid_chain_witness:
  "wf_board promotionBoard \<and> inBoard 2 1 \<and> \<not> isKing whitePawn \<and> UpRight \<in> set allDirections \<and>
   (\<lparr>row = 1, col = 2\<rparr>, \<lparr>row = 0, col = 3\<rparr>)
     \<in> set (pawnTargets promotionBoard \<lparr>row = 2, col = 1\<rparr> whitePawn [] \<lparr>row = 2, col = 1\<rparr> UpRight) \<and>
   kingTargets promotionBoard \<lparr>row = 0, col = 3\<rparr> (whitePawn\<lparr>isKing := True\<rparr>)
       [\<lparr>row = 1, col = 2\<rparr>] \<lparr>row = 2, col = 1\<rparr> DownRight =
     [(\<lparr>row = 2, col = 5\<rparr>, \<lparr>row = 3, col = 6\<rparr>), (\<lparr>row = 2, col = 5\<rparr>, \<lparr>row = 4, col = 7\<rparr>)] \<and>
   getCaptureMoves promotionBoard \<lparr>row = 2, col = 1\<rparr> whitePawn [] [] [] \<lparr>row = 2, col = 1\<rparr> =
     [\<lparr>mfrom = \<lparr>row = 2, col = 1\<rparr>, mto = \<lparr>row = 3, col = 6\<rparr>,
       captures = [\<lparr>row = 1, col = 2\<rparr>, \<lparr>row = 2, col = 5\<rparr>],
       path = [\<lparr>row = 0, col = 3\<rparr>, \<lparr>row = 3, col = 6\<rparr>], becomesKing = True\<rparr>,
      \<lparr>mfrom = \<lparr>row = 2, col = 1\<rparr>, mto = \<lparr>row = 4, col = 7\<rparr>,
       captures = [\<lparr>row = 1, col = 2\<rparr>, \<lparr>row = 2, col = 5\<rparr>],
       path = [\<lparr>row = 0, col = 3\<rparr>, \<lparr>row = 4, col = 7\<rparr>], becomesKing = True\<rparr>] \<and>
   list_all (\<lambda>m. take (Suc 0) (path m) = [\<lparr>row = 0, col = 3\<rparr>] \<and> becomesKing m)
     (getCaptureMoves promotionBoard \<lparr>row = 2, col = 1\<rparr> whitePawn [] [] []
        \<lparr>row = 2, col = 1\<rparr>)"
proof -
  let ?s = "\<lparr>row = 2, col = 1\<rparr>"
  let ?t = "(\<lparr>row = 1, col = 2\<rparr>, \<lparr>row = 0, col = 3\<rparr>)"
  have 1: "wf_board promotionBoard" by code_simp
  have 2: "inBoard (row ?s) (col ?s)" by code_simp
  have 3: "\<not> isKing whitePawn" by code_simp
  have 4: "UpRight \<in> set allDirections" by code_simp
  have 5: "?t \<in> set (pawnTargets promotionBoard ?s whitePawn [] ?s UpRight)" by code_simp
  have 6: "row (snd ?t) = (if color whitePawn = WHITE then 0 else 7)" by code_simp
  have 7: "kingTargets promotionBoard \<lparr>row = 0, col = 3\<rparr> (whitePawn\<lparr>isKing := True\<rparr>)
       [\<lparr>row = 1, col = 2\<rparr>] ?s DownRight =
     [(\<lparr>row = 2, col = 5\<rparr>, \<lparr>row = 3, col = 6\<rparr>), (\<lparr>row = 2, col = 5\<rparr>, \<lparr>row = 4, col = 7\<rparr>)]"
    by code_simp
  have 8: "getCaptureMoves promotionBoard ?s whitePawn [] [] [] ?s =
     [\<lparr>mfrom = \<lparr>row = 2, col = 1\<rparr>, mto = \<lparr>row = 3, col = 6\<rparr>,
       captures = [\<lparr>row = 1, col = 2\<rparr>, \<lparr>row = 2, col = 5\<rparr>],
       path = [\<lparr>row = 0, col = 3\<rparr>, \<lparr>row = 3, col = 6\<rparr>], becomesKing = True\<rparr>,
      \<lparr>mfrom = \<lparr>row = 2, col = 1\<rparr>, mto = \<lparr>row = 4, col = 7\<rparr>,
       captures = [\<lparr>row = 1, col = 2\<rparr>, \<lparr>row = 2, col = 5\<rparr>],
       path = [\<lparr>row = 0, col = 3\<rparr>, \<lparr>row = 4, col = 7\<rparr>], becomesKing = True\<rparr>]"
    by code_simp
  have "\<forall>m \<in> set (getCaptureMoves promotionBoard ?s whitePawn [] [] [] ?s).
      take (Suc (length ([] :: Position list))) (path m) = [] @ [snd ?t] \<longrightarrow> becomesKing m"
    by (rule promotion_mid_chain[OF 1 2 3 4 5 6, of "[]" "[]", THEN conjunct2, THEN conjunct2,
          THEN conjunct2])
  then have 9: "\<forall>m \<in> set (getCaptureMoves promotionBoard ?s whitePawn [] [] [] ?s).
      take (Suc 0) (path m) = [\<lparr>row = 0, col = 3\<rparr>] \<longrightarrow> becomesKing m"
    by simp
  have 10: "list_all (\<lambda>m. take (Suc 0) (path m) = [\<lparr>row = 0, col = 3\<rparr>])
      (getCaptureMoves promotionBoard ?s whitePawn [] [] [] ?s)"
    by (simp add: 8)
  from 9 10 have 11: "list_all (\<lambda>m. take (Suc 0) (path m) = [\<lparr>row = 0, col = 3\<rparr>] \<and> becomesKing m)
      (getCaptureMoves promotionBoard ?s whitePawn [] [] [] ?s)"
    unfolding list_all_iff by blast
  from 1 2 3 4 5 7 8 11 show ?thesis by (simp add: inBoard_def BOARD_SIZE_def)
qed

section \<open>Properties of the static evaluation\<close>

lemma evalSquare_flip:
  "evalSquare board WHITE rc s = - evalSquare board BLACK rc (- s)"
proof (cases "cell board (fst rc) (snd rc)")
  case None
  then show ?thesis by (simp add: evalSquare_def)
next
  case (Some p)
  then show ?thesis by (cases "color p") (simp_all add: evalSquare_def Let_def)
qed

lemma fold_evalSquare_flip:
  "fold (evalSquare board WHITE) sqs s = - fold (evalSquare board BLACK) sqs (- s)"
proof (induction sqs arbitrary: s)
  case Nil
  show ?case by simp
next
  case (Cons rc sqs)
  have "fold (evalSquare board WHITE) (rc # sqs) s =
        fold (evalSquare board WHITE) sqs (evalSquare board WHITE rc s)" by simp
  also have "\<dots> = - fold (evalSquare board BLACK) sqs (- evalSquare board WHITE rc s)"
    by (rule Cons.IH)
  also have "- evalSquare board WHITE rc s = evalSquare board BLACK rc (- s)"
    by (simp add: evalSquare_flip)
  finally show ?case by simp
qed

text \<open>
  Claim C8. For every 8x8 board, \<open>evaluateBoard board WHITE\<close> equals
  \<open>- evaluateBoard board BLACK\<close> exactly: every piece adds its value for one perspective
  and subtracts the same value for the other.
\<close>

theorem evaluateBoard_antisymmetric:
  assumes "wf_board board"
  shows "evaluateBoard board WHITE = - evaluateBoard board BLACK"
  unfolding evaluateBoard_def using fold_evalSquare_flip[of board squares 0] by simp

theorem evaluateBoard_antisymmetric_witness:
  "wf_board doubleJumpBoard \<and> evaluateBoard doubleJumpBoard WHITE = - 132 \<and>
   evaluateBoard doubleJumpBoard WHITE = - evaluateBoard doubleJumpBoard BLACK"
proof -
  have 1: "wf_board doubleJumpBoard" by code_simp
  have 2: "evaluateBoard doubleJumpBoard WHITE = - 132" by code_simp
  from evaluateBoard_antisymmetric[OF 1] 1 2 show ?thesis by simp
qed

section \<open>Properties of the game service\<close>

text \<open>
  Claim C2. If \<open>performMove\<close> is called with a snapshot whose version differs from the
  version of the stored record, it fails with the version-conflict error and the store is
  the one before the call: the record keeps its board, turn, version, status and every
  other field.
\<close>

theorem performMove_stale_version:
  assumes "wf_board (gboard gameData)" and "moveOnBoard move"
    and "db gameId = Some freshData"
    and "version freshData \<noteq> version gameData"
  shows "performMove db gameId gameData move nextTurn tExpire tMove = (Inl VersionConflict, db)"
  using assms(3,4) by (simp add: performMove_def Let_def)

theorem performMove_stale_version_witness:
  "wf_board (gboard (newGame\<lparr>version := 2\<rparr>)) \<and> moveOnBoard openingMove \<and>
   (Map.empty(''g1'' \<mapsto> newGame)) ''g1'' = Some newGame \<and>
   version newGame \<noteq> version (newGame\<lparr>version := 2\<rparr>) \<and>
   performMove (Map.empty(''g1'' \<mapsto> newGame)) ''g1'' (newGame\<lparr>version := 2\<rparr>) openingMove BLACK
       5000 5001 =
     (Inl VersionConflict, Map.empty(''g1'' \<mapsto> newGame))"
proof -
  have 1: "wf_board (gboard (newGame\<lparr>version := 2\<rparr>))" by code_simp
  have 2: "moveOnBoard openingMove" by code_simp
  have 3: "(Map.empty(''g1'' \<mapsto> newGame)) ''g1'' = Some newGame" by simp
  have 4: "version newGame \<noteq> version (newGame\<lparr>version := 2\<rparr>)" by (simp add: newGame_def)
  from performMove_stale_version[where db = "Map.empty(''g1'' \<mapsto> newGame)" and gameId = "''g1''",
      OF 1 2 3 4] 1 2 3 4
  show ?thesis by simp
qed

lemma performMove_commits:
  assumes "db gameId = Some freshData" and "version freshData = version gameData"
  shows "fst (performMove db gameId gameData move nextTurn tExpire tMove) = Inr () \<and>
         map_option version (snd (performMove db gameId gameData move nextTurn tExpire tMove) gameId)
           = Some (version freshData + 1)"
  using assms by (simp add: performMove_def Let_def)

text \<open>
  The earlier revision (lines 211-243) on the same inputs: the request is cleared and
  nothing else changes.
\<close>

lemma resolveTakeback_declined:
  assumes "db gameId = Some data" and "\<not> accepted \<or> previousState data = None"
  shows "resolveTakeback db gameId accepted = db(gameId \<mapsto> data\<lparr>takebackRequest := None\<rparr>)"
  using assms by (auto simp: resolveTakeback_def)

text \<open>
  Claim C9. \<open>resolveTakeback\<close> (the current revision, \<open>resolveTakeback_rev\<close>) with
  \<open>accepted = False\<close>, or with \<open>accepted = True\<close> while \<open>previousState\<close> is absent, stores
  the record with \<open>takebackRequest\<close> cleared and the version incremented by one and with
  no other field changed: board, turn and \<open>halfMoveClock\<close> are as before. No other record
  of the store is touched.
\<close>

theorem resolveTakeback_declined_bumps_version:
  assumes "db gameId = Some data" and "\<not> accepted \<or> previousState data = None"
  shows "resolveTakeback_rev db gameId accepted =
           db(gameId \<mapsto> data\<lparr>takebackRequest := None, version := version data + 1\<rparr>) \<and>
         (case resolveTakeback_rev db gameId accepted gameId of
            None \<Rightarrow> False
          | Some stored \<Rightarrow>
              takebackRequest stored = None \<and> version stored = version data + 1 \<and>
              gboard stored = gboard data \<and> gturn stored = gturn data \<and>
              halfMoveClock stored = halfMoveClock data)"
proof -
  from assms have eq: "resolveTakeback_rev db gameId accepted =
      db(gameId \<mapsto> data\<lparr>takebackRequest := None, version := version data + 1\<rparr>)"
    by (auto simp: resolveTakeback_rev_def)
  then show ?thesis by simp
qed

theorem resolveTakeback_declined_bumps_version_witness:
  "(Map.empty(''g1'' \<mapsto> movedGame)) ''g1'' = Some movedGame \<and>
   previousState movedGame \<noteq> None \<and> takebackRequest movedGame \<noteq> None \<and>
   version movedGame = 4 \<and>
   resolveTakeback_rev (Map.empty(''g1'' \<mapsto> movedGame)) ''g1'' False =
     Map.empty(''g1'' \<mapsto> movedGame\<lparr>takebackRequest := None, version := 5\<rparr>) \<and>
   (Map.empty(''g1'' \<mapsto> pendingGame)) ''g1'' = Some pendingGame \<and>
   previousState pendingGame = None \<and> version pendingGame = 3 \<and>
   resolveTakeback_rev (Map.empty(''g1'' \<mapsto> pendingGame)) ''g1'' True =
     Map.empty(''g1'' \<mapsto> pendingGame\<lparr>takebackRequest := None, version := 4\<rparr>)"
proof -
  have 1: "(Map.empty(''g1'' \<mapsto> movedGame)) ''g1'' = Some movedGame" by simp
  have 2: "\<not> False \<or> previousState movedGame = None" by simp
  have 3: "(Map.empty(''g1'' \<mapsto> pendingGame)) ''g1'' = Some pendingGame" by simp
  have 4: "previousState pendingGame = None" by (simp add: pendingGame_def newGame_def)
  then have 5: "\<not> True \<or> previousState pendingGame = None" by simp
  have 6: "previousState movedGame \<noteq> None \<and> takebackRequest movedGame \<noteq> None \<and>
           version movedGame = 4"
    by (simp add: movedGame_def pendingGame_def newGame_def)
  have 7: "version pendingGame = 3" by (simp add: pendingGame_def newGame_def)
  from resolveTakeback_declined_bumps_version[where db = "Map.empty(''g1'' \<mapsto> movedGame)"
      and gameId = "''g1''", OF 1 2] 6
  have a: "resolveTakeback_rev (Map.empty(''g1'' \<mapsto> movedGame)) ''g1'' False =
     Map.empty(''g1'' \<mapsto> movedGame\<lparr>takebackRequest := None, version := 5\<rparr>)"
    by simp
  from resolveTakeback_declined_bumps_version[where db = "Map.empty(''g1'' \<mapsto> pendingGame)"
      and gameId = "''g1''", OF 3 5] 7
  have b: "resolveTakeback_rev (Map.empty(''g1'' \<mapsto> pendingGame)) ''g1'' True =
     Map.empty(''g1'' \<mapsto> pendingGame\<lparr>takebackRequest := None, version := 4\<rparr>)"
    by simp
  from 1 3 4 6 7 a b show ?thesis by blast
qed

text \<open>
  Claim C10. If both player slots of the record are empty, \<open>joinGame\<close> fails with the
  \<^verbatim>\<open>Game is full\<close> error and leaves the store as it is. A joiner who is not yet a
  participant is seated exactly when one slot is empty and the other is taken (in the
  empty slot, with status ACTIVE and the version incremented); otherwise the call fails
  with that error.
\<close>

theorem joinGame_seating:
  assumes "db gameId = Some data"
  shows "(white (players data) = None \<and> black (players data) = None \<longrightarrow>
            joinGame db gameId playerId = (Inl GameFull, db)) \<and>
         (white (players data) \<noteq> Some playerId \<and> black (players data) \<noteq> Some playerId \<longrightarrow>
            (if (white (players data) = None) \<noteq> (black (players data) = None)
             then joinGame db gameId playerId =
                    (Inr (),
                     db(gameId \<mapsto> data\<lparr>
                          players := (if black (players data) = None
                                      then (players data)\<lparr>black := Some playerId\<rparr>
                                      else (players data)\<lparr>white := Some playerId\<rparr>),
                          status := ACTIVE, version := version data + 1\<rparr>))
             else joinGame db gameId playerId = (Inl GameFull, db)))"
  using assms by (auto simp: joinGame_def)

theorem joinGame_seating_witness:
  "(Map.empty(''g1'' \<mapsto> emptyGame)) ''g1'' = Some emptyGame \<and>
   white (players emptyGame) = None \<and> black (players emptyGame) = None \<and>
   joinGame (Map.empty(''g1'' \<mapsto> emptyGame)) ''g1'' ''carol''
     = (Inl GameFull, Map.empty(''g1'' \<mapsto> emptyGame)) \<and>
   white (players (emptyGame\<lparr>players := \<lparr>white = Some ''alice'', black = None\<rparr>\<rparr>)) \<noteq> Some ''carol'' \<and>
   black (players (emptyGame\<lparr>players := \<lparr>white = Some ''alice'', black = None\<rparr>\<rparr>)) \<noteq> Some ''carol'' \<and>
   joinGame (Map.empty(''g1'' \<mapsto> emptyGame\<lparr>players := \<lparr>white = Some ''alice'', black = None\<rparr>\<rparr>))
       ''g1'' ''carol''
     = (Inr (),
        Map.empty(''g1'' \<mapsto> emptyGame\<lparr>players := \<lparr>white = Some ''alice'', black = Some ''carol''\<rparr>,
                                        status := ACTIVE, version := 1\<rparr>))"
proof -
  let ?g = "emptyGame\<lparr>players := \<lparr>white = Some ''alice'', black = None\<rparr>\<rparr>"
  have 1: "(Map.empty(''g1'' \<mapsto> emptyGame)) ''g1'' = Some emptyGame" by simp
  have 2: "white (players emptyGame) = None \<and> black (players emptyGame) = None"
    by (simp add: emptyGame_def)
  have 3: "(Map.empty(''g1'' \<mapsto> ?g)) ''g1'' = Some ?g" by simp
  have 4: "white (players ?g) \<noteq> Some ''carol'' \<and> black (players ?g) \<noteq> Some ''carol''" by simp
  have 5: "(white (players ?g) = None) \<noteq> (black (players ?g) = None)" by simp
  from joinGame_seating[where db = "Map.empty(''g1'' \<mapsto> emptyGame)" and gameId = "''g1''"
      and playerId = "''carol''", OF 1] 2
  have a: "joinGame (Map.empty(''g1'' \<mapsto> emptyGame)) ''g1'' ''carol''
     = (Inl GameFull, Map.empty(''g1'' \<mapsto> emptyGame))" by simp
  from joinGame_seating[where db = "Map.empty(''g1'' \<mapsto> ?g)" and gameId = "''g1''"
      and playerId = "''carol''", OF 3] 4 5
  have b: "joinGame (Map.empty(''g1'' \<mapsto> ?g)) ''g1'' ''carol''
     = (Inr (), Map.empty(''g1'' \<mapsto> ?g\<lparr>players := \<lparr>white = Some ''alice'', black = Some ''carol''\<rparr>,
                                        status := ACTIVE, version := version ?g + 1\<rparr>))"
    by simp
  have v: "version ?g + 1 = 1" by (simp add: emptyGame_def)
  from 1 2 4 a b v show ?thesis by simp
qed

section \<open>Properties of move application and of the reachable boards\<close>

subsection \<open>Reading and writing squares\<close>

lemma cloneBoard_id: "cloneBoard board = board"
proof -
  have "(\<lambda>p. case p of Some q \<Rightarrow> Some \<lparr>color = color q, isKing = isKing q\<rparr> | None \<Rightarrow> None)
          = (\<lambda>p :: Piece option. p)"
    by (rule ext) (simp split: option.splits)
  then show ?thesis by (simp add: cloneBoard_def)
qed

lemma wf_board_cell:
  assumes "wf_board board"
  shows "cell board r c = (if inBoard r c then board ! nat r ! nat c else None)"
proof -
  from assms have l: "length board = 8" and rows: "\<And>i. i < 8 \<Longrightarrow> length (board ! i) = 8"
    by (auto simp: wf_board_def)
  show ?thesis
  proof (cases "0 \<le> r \<and> r < 8")
    case True
    then have "nat r < 8" by linarith
    from rows[OF this] True l show ?thesis
      by (auto simp: cell_def inBoard_def BOARD_SIZE_def)
  next
    case False
    with l show ?thesis by (auto simp: cell_def inBoard_def BOARD_SIZE_def)
  qed
qed

lemma cell_Some_inBoard:
  "wf_board board \<Longrightarrow> cell board r c = Some p \<Longrightarrow> inBoard r c"
  by (simp add: wf_board_cell split: if_splits)

lemma length_setCell [simp]: "length (setCell board r c v) = length board"
  by (simp add: setCell_def)

lemma wf_setCell: "wf_board board \<Longrightarrow> wf_board (setCell board r c v)"
proof (cases "0 \<le> r \<and> r < int (length board) \<and> 0 \<le> c \<and> c < int (length (board ! nat r))")
  case False
  assume wf: "wf_board board"
  have "setCell board r c v = board" unfolding setCell_def by (simp only: False if_False)
  with wf show ?thesis by simp
next
  case True
  assume wf: "wf_board board"
  from True have "nat r < length board" by linarith
  then have "board ! nat r \<in> set board" by (rule nth_mem)
  with wf have len: "length ((board ! nat r)[nat c := v]) = 8" by (simp add: wf_board_def)
  have "set (board[nat r := (board ! nat r)[nat c := v]])
          \<subseteq> insert ((board ! nat r)[nat c := v]) (set board)"
    by (rule set_update_subset_insert)
  with wf len have "\<forall>x \<in> set (board[nat r := (board ! nat r)[nat c := v]]). length x = 8"
    unfolding wf_board_def by blast
  with wf True show ?thesis by (simp add: wf_board_def setCell_def)
qed

lemma Position_eq_iff: "\<lparr>row = r, col = c\<rparr> = q \<longleftrightarrow> r = row q \<and> c = col q"
  by (cases q) auto

lemma cell_setCell:
  "cell (setCell board r c v) r' c' =
     (if r' = r \<and> c' = c \<and> 0 \<le> r \<and> r < int (length board) \<and> 0 \<le> c \<and>
         c < int (length (board ! nat r))
      then v else cell board r' c')"
proof (cases "0 \<le> r \<and> r < int (length board) \<and> 0 \<le> c \<and> c < int (length (board ! nat r))")
  case False
  then show ?thesis by (auto simp: setCell_def)
next
  case True
  then have s: "setCell board r c v = board[nat r := (board ! nat r)[nat c := v]]"
    by (simp add: setCell_def)
  show ?thesis
  proof (cases "r' = r")
    case True
    with \<open>0 \<le> r \<and> r < int (length board) \<and> 0 \<le> c \<and> c < int (length (board ! nat r))\<close>
    show ?thesis unfolding s cell_def
      by (auto simp: nth_list_update nat_eq_iff)
  next
    case False
    then have "0 \<le> r' \<Longrightarrow> nat r' \<noteq> nat r"
      using True by linarith
    then show ?thesis unfolding s cell_def using False
      by (auto simp: nth_list_update)
  qed
qed

lemma cell_setCell_wf:
  assumes "wf_board board"
  shows "cell (setCell board r c v) r' c' =
           (if r' = r \<and> c' = c \<and> inBoard r c then v else cell board r' c')"
proof -
  from assms have l: "length board = 8" and rows: "\<And>i. i < 8 \<Longrightarrow> length (board ! i) = 8"
    by (auto simp: wf_board_def)
  have "(0 \<le> r \<and> r < int (length board) \<and> 0 \<le> c \<and> c < int (length (board ! nat r)))
          = inBoard r c"
  proof (cases "0 \<le> r \<and> r < 8")
    case True
    then have "nat r < 8" by linarith
    from rows[OF this] True l show ?thesis by (auto simp: inBoard_def BOARD_SIZE_def)
  next
    case False
    with l show ?thesis by (auto simp: inBoard_def BOARD_SIZE_def)
  qed
  then show ?thesis by (simp add: cell_setCell)
qed

lemma wf_fold_setCell:
  "wf_board board \<Longrightarrow> wf_board (fold (\<lambda>c b. setCell b (row c) (col c) None) cs board)"
  by (induction cs arbitrary: board) (simp_all add: wf_setCell)

lemma cell_fold_setCell:
  assumes "wf_board board"
  shows "cell (fold (\<lambda>c b. setCell b (row c) (col c) None) cs board) r c' =
           (if \<lparr>row = r, col = c'\<rparr> \<in> set cs \<and> inBoard r c' then None else cell board r c')"
  using assms
proof (induction cs arbitrary: board)
  case Nil
  then show ?case by simp
next
  case (Cons q cs)
  have eq: "\<lparr>row = r, col = c'\<rparr> = q \<longleftrightarrow> r = row q \<and> c' = col q"
    by (rule Position_eq_iff)
  from Cons.IH[OF wf_setCell[OF Cons.prems]] Cons.prems show ?case
    by (auto simp: cell_setCell_wf eq)
qed

lemma wf_applyMove: "wf_board board \<Longrightarrow> wf_board (applyMove board move)"
  by (auto simp: applyMove_def cloneBoard_id Let_def wf_setCell wf_fold_setCell split: option.splits)

lemma cell_applyMove:
  assumes wf: "wf_board board" and on: "moveOnBoard move"
    and p: "cell board (row (mfrom move)) (col (mfrom move)) = Some p"
  shows "cell (applyMove board move) r c =
           (if \<lparr>row = r, col = c\<rparr> \<in> set (captures move) then None
            else if \<lparr>row = r, col = c\<rparr> = mto move
            then Some \<lparr>color = color p, isKing = (isKing p \<or> becomesKing move)\<rparr>
            else if \<lparr>row = r, col = c\<rparr> = mfrom move then None
            else cell board r c)"
proof -
  let ?b1 = "setCell board (row (mfrom move)) (col (mfrom move)) None"
  let ?b2 = "setCell ?b1 (row (mto move)) (col (mto move))
               (Some \<lparr>color = color p, isKing = (isKing p \<or> becomesKing move)\<rparr>)"
  have ap: "applyMove board move = fold (\<lambda>c b. setCell b (row c) (col c) None) (captures move) ?b2"
    using p by (simp add: applyMove_def cloneBoard_id Let_def)
  have wf2: "wf_board ?b2" by (intro wf_setCell wf)
  from on have f: "inBoard (row (mfrom move)) (col (mfrom move))"
    and t: "inBoard (row (mto move)) (col (mto move))"
    and cs: "\<And>q. q \<in> set (captures move) \<Longrightarrow> inBoard (row q) (col q)"
    by (auto simp: moveOnBoard_def list_all_iff)
  have eqt: "\<lparr>row = r, col = c\<rparr> = mto move \<longleftrightarrow> r = row (mto move) \<and> c = col (mto move)"
    by (rule Position_eq_iff)
  have eqf: "\<lparr>row = r, col = c\<rparr> = mfrom move \<longleftrightarrow> r = row (mfrom move) \<and> c = col (mfrom move)"
    by (rule Position_eq_iff)
  have incap: "\<lparr>row = r, col = c\<rparr> \<in> set (captures move) \<Longrightarrow> inBoard r c"
    using cs[of "\<lparr>row = r, col = c\<rparr>"] by simp
  show ?thesis
    unfolding ap cell_fold_setCell[OF wf2] cell_setCell_wf[OF wf_setCell[OF wf]] cell_setCell_wf[OF wf]
    using f t incap by (auto simp: eqt eqf)
qed

subsection \<open>Where the generated moves go\<close>

lemma dark_step: "dark (r + dr d) (c + dc d) = dark r c"
  unfolding dark_def by (cases d; simp; presburger)

lemma dark_step2: "dark (r + 2 * dr d) (c + 2 * dc d) = dark r c"
  unfolding dark_def by (cases d; simp; presburger)

lemma kingSlide_geometry:
  "m \<in> set (kingSlide board frm r c d) \<Longrightarrow>
     mfrom m = frm \<and> inBoard (row (mto m)) (col (mto m)) \<and>
     dark (row (mto m)) (col (mto m)) = dark r c"
proof (induction board frm r c d rule: kingSlide.induct)
  case (1 board frm r c d)
  from "1.prems" have inb: "inBoard r c" and emp: "\<not> cell board r c \<noteq> None"
    and m: "m = \<lparr>mfrom = frm, mto = \<lparr>row = r, col = c\<rparr>, captures = [],
                  path = [\<lparr>row = r, col = c\<rparr>], becomesKing = False\<rparr> \<or>
            m \<in> set (kingSlide board frm (r + dr d) (c + dc d) d)"
    by (subst (asm) kingSlide.simps, simp split: if_splits)+
  from m show ?case
  proof
    assume "m = \<lparr>mfrom = frm, mto = \<lparr>row = r, col = c\<rparr>, captures = [],
                  path = [\<lparr>row = r, col = c\<rparr>], becomesKing = False\<rparr>"
    with inb show ?thesis by simp
  next
    assume "m \<in> set (kingSlide board frm (r + dr d) (c + dc d) d)"
    from "1.IH"[OF inb emp this] show ?thesis by (simp add: dark_step)
  qed
qed

lemma in_concat_map: "m \<in> set (concat (map f xs)) \<Longrightarrow> \<exists>x. m \<in> set (f x)"
  by auto

lemma getSimpleMoves_geometry:
  assumes "m \<in> set (getSimpleMoves board frm piece)"
  shows "mfrom m = frm \<and> inBoard (row (mto m)) (col (mto m)) \<and>
         dark (row (mto m)) (col (mto m)) = dark (row frm) (col frm)"
proof -
  from assms have "\<exists>d. m \<in> set
      (if isKing piece then kingSlide board frm (row frm + dr d) (col frm + dc d) d
       else if inBoard (row frm + dr d) (col frm + dc d) \<and>
               cell board (row frm + dr d) (col frm + dc d) = None
       then [\<lparr>mfrom = frm, mto = \<lparr>row = row frm + dr d, col = col frm + dc d\<rparr>, captures = [],
               path = [\<lparr>row = row frm + dr d, col = col frm + dc d\<rparr>],
               becomesKing = ((color piece = WHITE \<and> row frm + dr d = 0) \<or>
                              (color piece = BLACK \<and> row frm + dr d = 7))\<rparr>]
       else [])"
    unfolding getSimpleMoves_def Let_def by (rule in_concat_map)
  then obtain d where d: "m \<in> set
      (if isKing piece then kingSlide board frm (row frm + dr d) (col frm + dc d) d
       else if inBoard (row frm + dr d) (col frm + dc d) \<and>
               cell board (row frm + dr d) (col frm + dc d) = None
       then [\<lparr>mfrom = frm, mto = \<lparr>row = row frm + dr d, col = col frm + dc d\<rparr>, captures = [],
               path = [\<lparr>row = row frm + dr d, col = col frm + dc d\<rparr>],
               becomesKing = ((color piece = WHITE \<and> row frm + dr d = 0) \<or>
                              (color piece = BLACK \<and> row frm + dr d = 7))\<rparr>]
       else [])" ..
  show ?thesis
  proof (cases "isKing piece")
    case True
    with d have "m \<in> set (kingSlide board frm (row frm + dr d) (col frm + dc d) d)" by simp
    from kingSlide_geometry[OF this] show ?thesis by (simp add: dark_step)
  next
    case False
    with d have "inBoard (row frm + dr d) (col frm + dc d) \<and> mfrom m = frm \<and>
      mto m = \<lparr>row = row frm + dr d, col = col frm + dc d\<rparr>"
      by (auto split: if_splits)
    then show ?thesis by (simp add: dark_step)
  qed
qed

lemma findPiece_dark:
  "findPiece board r c d = Some hit \<Longrightarrow> dark (row (fst hit)) (col (fst hit)) = dark r c"
proof (induction board r c d rule: findPiece.induct)
  case (1 board r c d)
  from "1.prems" have inb: "inBoard r c"
    by (subst (asm) findPiece.simps) (simp split: if_splits)
  show ?case
  proof (cases "cell board r c")
    case None
    with inb "1.prems" have "findPiece board (r + dr d) (c + dc d) d = Some hit"
      by (subst (asm) findPiece.simps) simp
    from "1.IH"[OF inb None this] show ?thesis by (simp add: dark_step)
  next
    case (Some p)
    with inb "1.prems" have "hit = (\<lparr>row = r, col = c\<rparr>, p)"
      by (subst (asm) findPiece.simps) simp
    then show ?thesis by simp
  qed
qed

lemma landingSquares_geometry:
  "q \<in> set (landingSquares board r c d start) \<Longrightarrow>
     inBoard (row q) (col q) \<and> dark (row q) (col q) = dark r c"
proof (induction board r c d start rule: landingSquares.induct)
  case (1 board landR landC d originalStart)
  from "1.prems" have inb: "inBoard landR landC"
    by (subst (asm) landingSquares.simps) (simp split: if_splits)
  from "1.prems" inb have open_sq:
      "\<not> (cell board landR landC \<noteq> None \<and>
          \<not> (landR = row originalStart \<and> landC = col originalStart))"
    by (subst (asm) landingSquares.simps) (auto simp: Let_def split: if_splits)
  from "1.prems" inb open_sq have q: "q = \<lparr>row = landR, col = landC\<rparr> \<or>
      q \<in> set (landingSquares board (landR + dr d) (landC + dc d) d originalStart)"
    by (subst (asm) landingSquares.simps) (auto simp: Let_def split: if_splits)
  from q show ?case
  proof
    assume "q = \<lparr>row = landR, col = landC\<rparr>"
    with inb show ?thesis by simp
  next
    assume "q \<in> set (landingSquares board (landR + dr d) (landC + dc d) d originalStart)"
    from "1.IH"[OF inb refl refl open_sq this] show ?thesis by (simp add: dark_step)
  qed
qed

lemma kingTargets_geometry:
  assumes "t \<in> set (kingTargets board cur piece cip start d)"
  shows "inBoard (row (fst t)) (col (fst t)) \<and> inBoard (row (snd t)) (col (snd t)) \<and>
         dark (row (snd t)) (col (snd t)) = dark (row cur) (col cur)"
proof (cases "findPiece board (row cur + dr d) (col cur + dc d) d")
  case None
  with assms show ?thesis by (simp add: kingTargets_def)
next
  case (Some hit)
  with assms have t: "fst t = fst hit"
    and l: "snd t \<in> set (landingSquares board (row (fst hit) + dr d) (col (fst hit) + dc d) d start)"
    by (auto simp: kingTargets_def Let_def split: if_splits)
  from findPiece_Some[OF Some] findPiece_dark[OF Some] landingSquares_geometry[OF l] t
  show ?thesis by (simp add: dark_step)
qed

lemma pawnTargets_geometry:
  assumes "wf_board board" and "t \<in> set (pawnTargets board cur piece cip start d)"
  shows "inBoard (row (fst t)) (col (fst t)) \<and> inBoard (row (snd t)) (col (snd t)) \<and>
         dark (row (snd t)) (col (snd t)) = dark (row cur) (col cur)"
proof -
  from assms(2) have t: "t = (\<lparr>row = row cur + dr d, col = col cur + dc d\<rparr>,
                              \<lparr>row = row cur + 2 * dr d, col = col cur + 2 * dc d\<rparr>)"
    and l: "inBoard (row cur + 2 * dr d) (col cur + 2 * dc d)"
    and c: "cell board (row cur + dr d) (col cur + dc d) \<noteq> None"
    by (auto simp: pawnTargets_def Let_def split: if_splits option.splits)
  from c obtain p where "cell board (row cur + dr d) (col cur + dc d) = Some p" by auto
  from cell_Some_inBoard[OF assms(1) this] t l show ?thesis by (simp add: dark_step2)
qed

lemma targets_geometry:
  assumes "wf_board board" and "t \<in> set (targets board cur piece cip start d)"
  shows "inBoard (row (fst t)) (col (fst t)) \<and> inBoard (row (snd t)) (col (snd t)) \<and>
         dark (row (snd t)) (col (snd t)) = dark (row cur) (col cur)"
  using assms kingTargets_geometry pawnTargets_geometry
  by (auto simp: targets_def split: if_splits)

lemma getCaptureMoves_geometry:
  "m \<in> set (getCaptureMoves board cur piece caps cip pth start) \<Longrightarrow> wf_board board \<Longrightarrow>
     list_all (\<lambda>q. inBoard (row q) (col q)) caps \<Longrightarrow>
     inBoard (row (mto m)) (col (mto m)) \<and>
     list_all (\<lambda>q. inBoard (row q) (col q)) (captures m) \<and>
     dark (row (mto m)) (col (mto m)) = dark (row cur) (col cur)"
proof (induction board cur piece caps cip pth start rule: getCaptureMoves_induct)
  case (step board cur piece caps cip pth start)
  from step.prems(1) obtain d t where d: "d \<in> set allDirections"
    and t: "t \<in> set (targets board cur piece cip start d)"
    and m: "m \<in> set (continue board piece caps cip pth start t)"
    by (auto simp: in_getCaptureMoves)
  note g = targets_geometry[OF step.prems(2) t]
  from g step.prems(3) have caps': "list_all (\<lambda>q. inBoard (row q) (col q)) (caps @ [fst t])"
    by simp
  from m show ?case
  proof (cases rule: continue_cases)
    case leaf
    with g caps' show ?thesis by simp
  next
    case deeper
    from step.IH[OF d t deeper step.prems(2) caps'] g show ?thesis by simp
  qed
qed

subsection \<open>The dark-square invariant\<close>

lemma set_squares: "rc \<in> set squares \<longleftrightarrow> inBoard (fst rc) (snd rc)"
proof -
  have "set squares = {0..7} \<times> {0..7}"
    by (auto simp: squares_def)
  then show ?thesis
    by (cases rc) (auto simp: inBoard_def BOARD_SIZE_def)
qed

lemma darkOnly_iff:
  assumes "wf_board board"
  shows "darkOnly board \<longleftrightarrow> (\<forall>r c. cell board r c \<noteq> None \<longrightarrow> dark r c)"
proof
  assume d: "darkOnly board"
  show "\<forall>r c. cell board r c \<noteq> None \<longrightarrow> dark r c"
  proof (intro allI impI)
    fix r c
    assume "cell board r c \<noteq> None"
    then obtain p where p: "cell board r c = Some p" by auto
    from cell_Some_inBoard[OF assms p] have "(r, c) \<in> set squares" by (simp add: set_squares)
    with d p show "dark r c" by (auto simp: darkOnly_def list_all_iff dark_def)
  qed
next
  assume "\<forall>r c. cell board r c \<noteq> None \<longrightarrow> dark r c"
  then show "darkOnly board"
    by (auto simp: darkOnly_def list_all_iff dark_def split: option.splits)
qed

lemma calculateAllowedMoves_geometry:
  assumes wf: "wf_board board" and m: "m \<in> set (calculateAllowedMoves board turn)"
  shows "moveOnBoard m \<and>
         (\<exists>p. cell board (row (mfrom m)) (col (mfrom m)) = Some p \<and> color p = turn) \<and>
         dark (row (mto m)) (col (mto m)) = dark (row (mfrom m)) (col (mfrom m))"
proof -
  from in_calculateAllowedMoves[OF m] obtain rc piece where
    rc: "rc \<in> set squares" and p: "cell board (fst rc) (snd rc) = Some piece"
    and t: "color piece = turn"
    and cases: "m \<in> set (getCaptureMoves board \<lparr>row = fst rc, col = snd rc\<rparr> piece [] [] []
                \<lparr>row = fst rc, col = snd rc\<rparr>) \<or>
     m \<in> set (getSimpleMoves board \<lparr>row = fst rc, col = snd rc\<rparr> piece)"
    by blast
  from rc have inb: "inBoard (fst rc) (snd rc)" by (simp add: set_squares)
  from cases show ?thesis
  proof
    assume c: "m \<in> set (getCaptureMoves board \<lparr>row = fst rc, col = snd rc\<rparr> piece [] [] []
                \<lparr>row = fst rc, col = snd rc\<rparr>)"
    from mfrom_start[OF c] have f: "mfrom m = \<lparr>row = fst rc, col = snd rc\<rparr>" .
    from getCaptureMoves_geometry[OF c wf] f inb p t show ?thesis
      by (simp add: moveOnBoard_def)
  next
    assume s: "m \<in> set (getSimpleMoves board \<lparr>row = fst rc, col = snd rc\<rparr> piece)"
    from getSimpleMoves_geometry[OF s] getSimpleMoves_captures[OF s] inb p t show ?thesis
      by (simp add: moveOnBoard_def)
  qed
qed

lemma applyMove_dark:
  assumes wf: "wf_board board" and dk: "\<forall>r c. cell board r c \<noteq> None \<longrightarrow> dark r c"
    and m: "m \<in> set (calculateAllowedMoves board turn)"
  shows "\<forall>r c. cell (applyMove board m) r c \<noteq> None \<longrightarrow> dark r c"
proof (intro allI impI)
  fix r c
  assume ne: "cell (applyMove board m) r c \<noteq> None"
  from calculateAllowedMoves_geometry[OF wf m] obtain p where
    on: "moveOnBoard m" and p: "cell board (row (mfrom m)) (col (mfrom m)) = Some p"
    and d: "dark (row (mto m)) (col (mto m)) = dark (row (mfrom m)) (col (mfrom m))"
    by blast
  from p dk have df: "dark (row (mfrom m)) (col (mfrom m))" by auto
  from ne have "\<lparr>row = r, col = c\<rparr> = mto m \<or> cell board r c \<noteq> None"
    unfolding cell_applyMove[OF wf on p] by (auto split: if_splits)
  then show "dark r c"
  proof
    assume "\<lparr>row = r, col = c\<rparr> = mto m"
    then have "r = row (mto m)" "c = col (mto m)" by (simp_all add: Position_eq_iff)
    with d df show ?thesis by simp
  next
    assume "cell board r c \<noteq> None"
    with dk show ?thesis by simp
  qed
qed

lemma playMoves_invariant:
  "playMoves start steps = Some board \<Longrightarrow> wf_board start \<Longrightarrow>
     (\<forall>r c. cell start r c \<noteq> None \<longrightarrow> dark r c) \<Longrightarrow>
     wf_board board \<and> (\<forall>r c. cell board r c \<noteq> None \<longrightarrow> dark r c)"
proof (induction steps arbitrary: start)
  case Nil
  then show ?case by simp
next
  case (Cons step rest)
  from Cons.prems(1) have m: "snd step \<in> set (calculateAllowedMoves start (fst step))"
    and rest: "playMoves (applyMove start (snd step)) rest = Some board"
    by (simp_all split: if_splits)
  from Cons.IH[OF rest wf_applyMove[OF Cons.prems(2)] applyMove_dark[OF Cons.prems(2,3) m]]
  show ?case .
qed

lemma initializeBoard_wf: "wf_board initializeBoard"
  by code_simp

lemma initializeBoard_darkOnly: "darkOnly initializeBoard"
  by code_simp

text \<open>
  Claim C7. \<open>initializeBoard\<close> has pieces only on squares where \<open>row + col\<close> is odd, and
  so has every board reached from it by repeatedly applying, with \<open>applyMove\<close>, a move
  that \<open>calculateAllowedMoves\<close> returns for either side (the empty sequence of steps gives
  \<open>initializeBoard\<close> itself). The reached boards are 8x8.
\<close>

theorem dark_square_invariant:
  assumes "playMoves initializeBoard steps = Some board"
  shows "wf_board board \<and> (\<forall>r c. cell board r c \<noteq> None \<longrightarrow> (r + c) mod 2 = 1)"
proof -
  from initializeBoard_darkOnly
  have "\<forall>r c. cell initializeBoard r c \<noteq> None \<longrightarrow> dark r c"
    by (simp add: darkOnly_iff[OF initializeBoard_wf])
  from playMoves_invariant[OF assms initializeBoard_wf this] show ?thesis
    by (simp add: dark_def)
qed

theorem dark_square_invariant_witness:
  "playMoves initializeBoard [] = Some initializeBoard \<and> darkOnly initializeBoard \<and>
   playMoves initializeBoard shortGame \<noteq> None \<and>
   wf_board (the (playMoves initializeBoard shortGame)) \<and>
   darkOnly (the (playMoves initializeBoard shortGame)) \<and>
   cell (the (playMoves initializeBoard shortGame)) 2 3 = Some \<lparr>color = WHITE, isKing = False\<rparr> \<and>
   cell (the (playMoves initializeBoard shortGame)) 3 2 = None"
proof -
  have 1: "playMoves initializeBoard shortGame \<noteq> None" by code_simp
  then obtain b where b: "playMoves initializeBoard shortGame = Some b" by auto
  from dark_square_invariant[OF b]
  have wf: "wf_board b" and dk: "\<forall>r c. cell b r c \<noteq> None \<longrightarrow> dark r c"
    by (simp_all add: dark_def)
  from dk have 2: "darkOnly b" by (simp add: darkOnly_iff[OF wf])
  have 3: "cell (the (playMoves initializeBoard shortGame)) 2 3 = Some \<lparr>color = WHITE, isKing = False\<rparr>"
    by code_simp
  have 4: "cell (the (playMoves initializeBoard shortGame)) 3 2 = None" by code_simp
  from 1 2 3 4 wf b initializeBoard_darkOnly show ?thesis by simp
qed

subsection \<open>Move application on the heap\<close>

lemma writeH_fresh:
  assumes "freshGrid n h g"
  shows "freshGrid n (writeH h g r c v) g \<and> take n (writeH h g r c v) = take n h \<and>
         gridAt (writeH h g r c v) g = gridAt h g \<and>
         readBoard (writeH h g r c v) g = setCell (readBoard h g) r c v"
proof (cases "0 \<le> r \<and> r < int (length (gridAt h g)) \<and> 0 \<le> c \<and>
         c < int (length (rowAt h (gridAt h g ! nat r)))")
  case False
  have w: "writeH h g r c v = h" unfolding writeH_def by (simp only: False if_False)
  from False have "\<not> (0 \<le> r \<and> r < int (length (readBoard h g)) \<and> 0 \<le> c \<and>
         c < int (length (readBoard h g ! nat r)))"
    by (auto simp: readBoard_def)
  then have "setCell (readBoard h g) r c v = readBoard h g"
    unfolding setCell_def by (simp only: if_False)
  with w assms show ?thesis by simp
next
  case True
  let ?rs = "gridAt h g"
  let ?i = "nat r"
  let ?a = "?rs ! ?i"
  let ?new = "(rowAt h ?a)[nat c := v]"
  let ?h' = "h[?a := RowObj ?new]"
  from True have i: "?i < length ?rs" by linarith
  then have a_in: "?a \<in> set ?rs" by (rule nth_mem)
  from assms a_in have a: "n \<le> ?a" "?a < length h" "?a \<noteq> g "
    by (auto simp: freshGrid_def)
  have w: "writeH h g r c v = ?h'" unfolding writeH_def using True by simp
  have g_same: "?h' ! g = h ! g" using a(3) by simp
  then have grid: "gridAt ?h' g = ?rs" by (simp add: gridAt_def)
  have tk: "take n ?h' = take n h" using a(1) by simp
  have fresh: "freshGrid n ?h' g"
    unfolding freshGrid_def
  proof (intro conjI ballI)
    from assms show "n \<le> g" by (simp add: freshGrid_def)
    from assms show "g < length ?h'" by (simp add: freshGrid_def)
    from assms g_same show "\<exists>rs. ?h' ! g = GridObj rs" by (simp add: freshGrid_def)
    from assms grid show "distinct (gridAt ?h' g)" by (simp add: freshGrid_def)
  next
    fix b assume "b \<in> set (gridAt ?h' g)"
    with grid have b: "b \<in> set ?rs" by simp
    with assms have "n \<le> b" "b < length h" "b \<noteq> g" "\<exists>cs. h ! b = RowObj cs"
      by (auto simp: freshGrid_def)
    then show "n \<le> b" "b < length ?h'" "b \<noteq> g" "\<exists>cs. ?h' ! b = RowObj cs"
      using a(2) by (auto simp: nth_list_update)
  qed
  have rows: "\<And>j. j < length ?rs \<Longrightarrow>
      rowAt ?h' (?rs ! j) = (if j = ?i then ?new else rowAt h (?rs ! j))"
  proof -
    fix j assume j: "j < length ?rs"
    from assms have "distinct ?rs" by (simp add: freshGrid_def)
    with i j have "?rs ! j = ?a \<longleftrightarrow> j = ?i" by (simp add: nth_eq_iff_index_eq)
    then show "rowAt ?h' (?rs ! j) = (if j = ?i then ?new else rowAt h (?rs ! j))"
      using a(2) by (auto simp: rowAt_def nth_list_update)
  qed
  have "readBoard ?h' g = (readBoard h g)[?i := ?new]"
  proof (rule nth_equalityI)
    show "length (readBoard ?h' g) = length ((readBoard h g)[?i := ?new])"
      by (simp add: readBoard_def grid)
  next
    fix j assume "j < length (readBoard ?h' g)"
    then have j: "j < length ?rs" by (simp add: readBoard_def grid)
    then show "readBoard ?h' g ! j = (readBoard h g)[?i := ?new] ! j"
      by (simp add: readBoard_def grid rows nth_list_update)
  qed
  moreover have "setCell (readBoard h g) r c v = (readBoard h g)[?i := ?new]"
    using True i by (simp add: setCell_def readBoard_def)
  ultimately have rb: "readBoard ?h' g = setCell (readBoard h g) r c v" by simp
  from fresh tk grid rb show ?thesis unfolding w by simp
qed

lemma fold_writeH_fresh:
  assumes "freshGrid n h g"
  shows "freshGrid n (fold (\<lambda>c hh. writeH hh g (row c) (col c) None) cs h) g \<and>
         take n (fold (\<lambda>c hh. writeH hh g (row c) (col c) None) cs h) = take n h \<and>
         gridAt (fold (\<lambda>c hh. writeH hh g (row c) (col c) None) cs h) g = gridAt h g \<and>
         readBoard (fold (\<lambda>c hh. writeH hh g (row c) (col c) None) cs h) g =
           fold (\<lambda>c b. setCell b (row c) (col c) None) cs (readBoard h g)"
  using assms
proof (induction cs arbitrary: h)
  case Nil
  then show ?case by simp
next
  case (Cons q cs)
  note w = writeH_fresh[OF Cons.prems, of "row q" "col q" None]
  from w have f: "freshGrid n (writeH h g (row q) (col q) None) g" by simp
  from Cons.IH[OF f] w show ?case by simp
qed

lemma wfH_grid:
  assumes "wfH h g"
  shows "g < length h \<and> h ! g = GridObj (gridAt h g) \<and> length (gridAt h g) = 8 \<and>
         (\<forall>a \<in> set (gridAt h g). a < length h \<and> h ! a = RowObj (rowAt h a) \<and>
                                    length (rowAt h a) = 8)"
  using assms
  by (auto simp: wfH_def gridAt_def rowAt_def list_all_iff split: Obj.splits)

lemma wfH_wf_board: "wfH h g \<Longrightarrow> wf_board (readBoard h g)"
  using wfH_grid[of h g] by (auto simp: wf_board_def readBoard_def)

lemma readBoard_frame:
  assumes "wfH h g" and "take (length h) h' = h"
  shows "readBoard h' g = readBoard h g"
proof -
  have same: "\<And>a. a < length h \<Longrightarrow> h' ! a = h ! a"
  proof -
    fix a assume "a < length h"
    then have "take (length h) h' ! a = h' ! a" by simp
    with assms(2) show "h' ! a = h ! a" by simp
  qed
  from wfH_grid[OF assms(1)] have g: "g < length h"
    and rows: "\<And>a. a \<in> set (gridAt h g) \<Longrightarrow> a < length h" by auto
  from same[OF g] have grid: "gridAt h' g = gridAt h g" by (simp add: gridAt_def)
  have "map (rowAt h') (gridAt h g) = map (rowAt h) (gridAt h g)"
    by (rule map_cong[OF refl]) (simp add: rowAt_def same[OF rows])
  with grid show ?thesis by (simp add: readBoard_def)
qed

lemma cloneBoardH_fresh:
  assumes "wfH h g"
  shows "freshGrid (length h) (fst (cloneBoardH h g)) (snd (cloneBoardH h g)) \<and>
         take (length h) (fst (cloneBoardH h g)) = h \<and>
         readBoard (fst (cloneBoardH h g)) (snd (cloneBoardH h g)) = cloneBoard (readBoard h g)"
proof -
  let ?copy = "map (\<lambda>p. case p of Some q \<Rightarrow> Some \<lparr>color = color q, isKing = isKing q\<rparr>
                              | None \<Rightarrow> None)"
  let ?rs = "gridAt h g"
  let ?n = "length h"
  let ?R = "map (\<lambda>a. RowObj (?copy (rowAt h a))) ?rs"
  let ?addrs = "[?n ..< ?n + length ?rs]"
  let ?h2 = "h @ ?R @ [GridObj ?addrs]"
  let ?g' = "?n + length ?rs"
  have cl: "cloneBoardH h g = (?h2, ?g')" by (simp add: cloneBoardH_def Let_def)
  have hg: "?h2 ! ?g' = GridObj ?addrs"
    by (simp add: nth_append)
  then have grid: "gridAt ?h2 ?g' = ?addrs" by (simp add: gridAt_def)
  have row: "\<And>i. i < length ?rs \<Longrightarrow> ?h2 ! (?n + i) = RowObj (?copy (rowAt h (?rs ! i)))"
    by (simp add: nth_append)
  have fresh: "freshGrid ?n ?h2 ?g'"
    unfolding freshGrid_def grid
  proof (intro conjI ballI)
    show "?n \<le> ?g'" by simp
    show "?g' < length ?h2" by simp
    from hg show "\<exists>rs. ?h2 ! ?g' = GridObj rs" by blast
    show "distinct ?addrs" by simp
  next
    fix a assume "a \<in> set ?addrs"
    then have a: "?n \<le> a" "a < ?n + length ?rs" by simp_all
    then obtain i where i: "a = ?n + i" "i < length ?rs"
      by (metis add_diff_inverse_nat less_diff_conv2 add.commute not_less)
    from a show "?n \<le> a" "a < length ?h2" "a \<noteq> ?g'" by simp_all
    from row[OF i(2)] i(1) show "\<exists>cs. ?h2 ! a = RowObj cs" by blast
  qed
  have tk: "take ?n ?h2 = h" by simp
  have rb: "readBoard ?h2 ?g' = cloneBoard (readBoard h g)"
  proof (rule nth_equalityI)
    show "length (readBoard ?h2 ?g') = length (cloneBoard (readBoard h g))"
      by (simp add: readBoard_def grid cloneBoard_def)
  next
    fix i assume "i < length (readBoard ?h2 ?g')"
    then have i: "i < length ?rs" by (simp add: readBoard_def grid)
    have "readBoard ?h2 ?g' ! i = rowAt ?h2 (?n + i)"
      using i by (simp add: readBoard_def grid)
    also have "\<dots> = ?copy (rowAt h (?rs ! i))"
      using row[OF i] by (simp add: rowAt_def)
    also have "\<dots> = cloneBoard (readBoard h g) ! i"
      using i by (simp add: cloneBoard_def readBoard_def)
    finally show "readBoard ?h2 ?g' ! i = cloneBoard (readBoard h g) ! i" .
  qed
  from fresh tk rb show ?thesis unfolding cl fst_conv snd_conv by blast
qed

lemma applyMoveH_refines:
  assumes "wfH h board"
  shows "take (length h) (fst (applyMoveH h board move)) = h \<and>
         freshGrid (length h) (fst (applyMoveH h board move)) (snd (applyMoveH h board move)) \<and>
         readBoard (fst (applyMoveH h board move)) (snd (applyMoveH h board move)) =
           applyMove (readBoard h board) move"
proof -
  let ?n = "length h"
  let ?h1 = "fst (cloneBoardH h board)"
  let ?g = "snd (cloneBoardH h board)"
  from cloneBoardH_fresh[OF assms] have f1: "freshGrid ?n ?h1 ?g" and t1: "take ?n ?h1 = h"
    and r1: "readBoard ?h1 ?g = readBoard h board"
    by (simp_all add: cloneBoard_id)
  show ?thesis
  proof (cases "cell (readBoard h board) (row (mfrom move)) (col (mfrom move))")
    case None
    then have "applyMoveH h board move = (?h1, ?g)"
      by (simp add: applyMoveH_def Let_def r1)
    moreover from None have "applyMove (readBoard h board) move = readBoard h board"
      by (simp add: applyMove_def cloneBoard_id Let_def)
    ultimately show ?thesis using f1 t1 r1 by simp
  next
    case (Some p)
    let ?h2 = "writeH ?h1 ?g (row (mfrom move)) (col (mfrom move)) None"
    let ?v = "Some \<lparr>color = color p, isKing = (isKing p \<or> becomesKing move)\<rparr>"
    let ?h3 = "writeH ?h2 ?g (row (mto move)) (col (mto move)) ?v"
    let ?h4 = "fold (\<lambda>c hh. writeH hh ?g (row c) (col c) None) (captures move) ?h3"
    have ap: "applyMoveH h board move = (?h4, ?g)"
      using Some by (simp add: applyMoveH_def Let_def r1)
    note w2 = writeH_fresh[OF f1, of "row (mfrom move)" "col (mfrom move)" None]
    from w2 have f2: "freshGrid ?n ?h2 ?g" by simp
    note w3 = writeH_fresh[OF f2, of "row (mto move)" "col (mto move)" ?v]
    from w3 have f3: "freshGrid ?n ?h3 ?g" by simp
    note w4 = fold_writeH_fresh[OF f3, of "captures move"]
    have tk: "take ?n ?h4 = h" using w2 w3 w4 t1 by simp
    have rb: "readBoard ?h4 ?g = applyMove (readBoard h board) move"
      using w2 w3 w4 r1 Some by (simp add: applyMove_def cloneBoard_id Let_def)
    from tk rb w4 show ?thesis unfolding ap fst_conv snd_conv by blast
  qed
qed

text \<open>
  Claim C3. For a board on the heap, a move whose squares lie on the grid and a piece \<open>p\<close>
  on \<open>mfrom move\<close>: \<open>applyMove\<close> returns a new board (a new grid object with new rows)
  that holds on \<open>mto move\<close> the piece with king flag \<open>isKing p \<or> becomesKing move\<close>, is
  empty on every square of \<open>captures move\<close> (the captures are removed last) and on
  \<open>mfrom move\<close>, and is as the input on every other square; every object that existed
  before the call is unchanged, so the input board reads as before. The returned board is
  the one the value-level \<open>applyMove\<close> computes.
\<close>

theorem applyMove_result_and_frame:
  assumes "wfH h board" and "moveOnBoard move"
    and "cell (readBoard h board) (row (mfrom move)) (col (mfrom move)) = Some p"
  shows "take (length h) (fst (applyMoveH h board move)) = h \<and>
         readBoard (fst (applyMoveH h board move)) board = readBoard h board \<and>
         length h \<le> snd (applyMoveH h board move) \<and>
         (\<forall>a \<in> set (gridAt (fst (applyMoveH h board move)) (snd (applyMoveH h board move))).
            length h \<le> a) \<and>
         (\<forall>r c. cell (readBoard (fst (applyMoveH h board move)) (snd (applyMoveH h board move))) r c =
            (if \<lparr>row = r, col = c\<rparr> \<in> set (captures move) then None
             else if \<lparr>row = r, col = c\<rparr> = mto move
             then Some \<lparr>color = color p, isKing = (isKing p \<or> becomesKing move)\<rparr>
             else if \<lparr>row = r, col = c\<rparr> = mfrom move then None
             else cell (readBoard h board) r c)) \<and>
         readBoard (fst (applyMoveH h board move)) (snd (applyMoveH h board move)) =
           applyMove (readBoard h board) move"
proof -
  note R = applyMoveH_refines[OF assms(1), of move]
  from R have tk: "take (length h) (fst (applyMoveH h board move)) = h" by simp
  from R have fr: "freshGrid (length h) (fst (applyMoveH h board move))
                     (snd (applyMoveH h board move))" by simp
  from R have rb: "readBoard (fst (applyMoveH h board move)) (snd (applyMoveH h board move)) =
           applyMove (readBoard h board) move" by simp
  from readBoard_frame[OF assms(1) tk]
  have same: "readBoard (fst (applyMoveH h board move)) board = readBoard h board" .
  from fr have new: "length h \<le> snd (applyMoveH h board move)"
    and rows: "\<forall>a \<in> set (gridAt (fst (applyMoveH h board move)) (snd (applyMoveH h board move))).
            length h \<le> a"
    by (simp_all add: freshGrid_def)
  note C = cell_applyMove[OF wfH_wf_board[OF assms(1)] assms(2,3)]
  from tk same new rows rb C show ?thesis by simp
qed

theorem applyMove_result_and_frame_witness:
  "wfH (heapOfBoard doubleJumpBoard) 8 \<and> moveOnBoard doubleJumpMove \<and>
   cell (readBoard (heapOfBoard doubleJumpBoard) 8) 5 4 = Some whitePawn \<and>
   take 9 (fst (applyMoveH (heapOfBoard doubleJumpBoard) 8 doubleJumpMove))
     = heapOfBoard doubleJumpBoard \<and>
   readBoard (fst (applyMoveH (heapOfBoard doubleJumpBoard) 8 doubleJumpMove)) 8
     = doubleJumpBoard \<and>
   snd (applyMoveH (heapOfBoard doubleJumpBoard) 8 doubleJumpMove) = 17 \<and>
   readBoard (fst (applyMoveH (heapOfBoard doubleJumpBoard) 8 doubleJumpMove))
       (snd (applyMoveH (heapOfBoard doubleJumpBoard) 8 doubleJumpMove))
     = place 1 0 WHITE False emptyBoard"
proof -
  let ?h = "heapOfBoard doubleJumpBoard"
  have 1: "wfH ?h 8" by code_simp
  have 2: "moveOnBoard doubleJumpMove" by code_simp
  have 3: "cell (readBoard ?h 8) (row (mfrom doubleJumpMove)) (col (mfrom doubleJumpMove))
             = Some whitePawn" by code_simp
  have 4: "length ?h = 9" by code_simp
  have 5: "readBoard ?h 8 = doubleJumpBoard" by code_simp
  have 6: "applyMove doubleJumpBoard doubleJumpMove = place 1 0 WHITE False emptyBoard"
    by code_simp
  have 7: "snd (applyMoveH ?h 8 doubleJumpMove) = 17" by code_simp
  have 8: "cell (readBoard ?h 8) 5 4 = Some whitePawn" by code_simp
  note T = applyMove_result_and_frame[OF 1 2 3]
  from T 4 have a: "take 9 (fst (applyMoveH ?h 8 doubleJumpMove)) = ?h" by simp
  from T 5 have b: "readBoard (fst (applyMoveH ?h 8 doubleJumpMove)) 8 = doubleJumpBoard"
    by simp
  from T 5 6 have c: "readBoard (fst (applyMoveH ?h 8 doubleJumpMove))
       (snd (applyMoveH ?h 8 doubleJumpMove)) = place 1 0 WHITE False emptyBoard"
    by simp
  from 1 2 8 a b 7 c show ?thesis by blast
qed

subsection \<open>The moves of the engine, applied\<close>

text \<open>
  A captured square holds an enemy piece and a landing square is empty or is the start
  square, so a move of the engine never lands on a square it captures: after
  \<open>applyMove\<close> the moved piece stands on \<open>mto\<close>.
\<close>

lemma landingSquares_open:
  "q \<in> set (landingSquares board r c d start) \<Longrightarrow>
     cell board (row q) (col q) = None \<or> q = start"
proof (induction board r c d start rule: landingSquares.induct)
  case (1 board landR landC d originalStart)
  from "1.prems" have inb: "inBoard landR landC"
    by (subst (asm) landingSquares.simps) (simp split: if_splits)
  from "1.prems" inb have open_sq:
      "\<not> (cell board landR landC \<noteq> None \<and>
          \<not> (landR = row originalStart \<and> landC = col originalStart))"
    by (subst (asm) landingSquares.simps) (auto simp: Let_def split: if_splits)
  from "1.prems" inb open_sq have q: "q = \<lparr>row = landR, col = landC\<rparr> \<or>
      q \<in> set (landingSquares board (landR + dr d) (landC + dc d) d originalStart)"
    by (subst (asm) landingSquares.simps) (auto simp: Let_def split: if_splits)
  from q show ?case
  proof
    assume "q = \<lparr>row = landR, col = landC\<rparr>"
    with open_sq show ?thesis by (cases originalStart) auto
  next
    assume "q \<in> set (landingSquares board (landR + dr d) (landC + dc d) d originalStart)"
    from "1.IH"[OF inb refl refl open_sq this] show ?thesis .
  qed
qed

lemma kingTargets_enemy:
  assumes "t \<in> set (kingTargets board cur piece cip start d)"
  shows "(\<exists>e. cell board (row (fst t)) (col (fst t)) = Some e \<and> color e \<noteq> color piece) \<and>
         (cell board (row (snd t)) (col (snd t)) = None \<or> snd t = start)"
proof (cases "findPiece board (row cur + dr d) (col cur + dc d) d")
  case None
  with assms show ?thesis by (simp add: kingTargets_def)
next
  case (Some hit)
  with assms have t: "fst t = fst hit" and e: "color (snd hit) \<noteq> color piece"
    and l: "snd t \<in> set (landingSquares board (row (fst hit) + dr d) (col (fst hit) + dc d) d start)"
    by (auto simp: kingTargets_def Let_def split: if_splits)
  from findPiece_Some[OF Some] t e landingSquares_open[OF l] show ?thesis by simp
qed

lemma pawnTargets_enemy:
  assumes "t \<in> set (pawnTargets board cur piece cip start d)"
  shows "(\<exists>e. cell board (row (fst t)) (col (fst t)) = Some e \<and> color e \<noteq> color piece) \<and>
         (cell board (row (snd t)) (col (snd t)) = None \<or> snd t = start)"
proof -
  from assms have t: "t = (\<lparr>row = row cur + dr d, col = col cur + dc d\<rparr>,
                            \<lparr>row = row cur + 2 * dr d, col = col cur + 2 * dc d\<rparr>)"
    and e: "\<exists>e. cell board (row cur + dr d) (col cur + dc d) = Some e \<and> color e \<noteq> color piece"
    and o: "cell board (row cur + 2 * dr d) (col cur + 2 * dc d) = None \<or>
            (row cur + 2 * dr d = row start \<and> col cur + 2 * dc d = col start)"
    by (auto simp: pawnTargets_def Let_def split: if_splits option.splits)
  from o have "cell board (row (snd t)) (col (snd t)) = None \<or> snd t = start"
    unfolding t by (cases start) auto
  with e t show ?thesis by simp
qed

lemma targets_enemy:
  assumes "t \<in> set (targets board cur piece cip start d)"
  shows "(\<exists>e. cell board (row (fst t)) (col (fst t)) = Some e \<and> color e \<noteq> color piece) \<and>
         (cell board (row (snd t)) (col (snd t)) = None \<or> snd t = start)"
  using assms kingTargets_enemy pawnTargets_enemy
  by (auto simp: targets_def split: if_splits)

lemma landing_not_captured_gen:
  "m \<in> set (getCaptureMoves board cur piece caps cip pth start) \<Longrightarrow>
     cell board (row start) (col start) = Some sp \<Longrightarrow> color sp = color piece \<Longrightarrow>
     (\<forall>q \<in> set caps. \<exists>e. cell board (row q) (col q) = Some e \<and> color e \<noteq> color piece) \<Longrightarrow>
     mto m \<notin> set (captures m)"
proof (induction board cur piece caps cip pth start rule: getCaptureMoves_induct)
  case (step board cur piece caps cip pth start)
  from step.prems(1) obtain d t where d: "d \<in> set allDirections"
    and t: "t \<in> set (targets board cur piece cip start d)"
    and m: "m \<in> set (continue board piece caps cip pth start t)"
    by (auto simp: in_getCaptureMoves)
  note e = targets_enemy[OF t]
  from e step.prems(4)
  have caps': "\<forall>q \<in> set (caps @ [fst t]).
      \<exists>e. cell board (row q) (col q) = Some e \<and> color e \<noteq> color (nextPiece piece (snd t))"
    by auto
  from m show ?case
  proof (cases rule: continue_cases)
    case leaf
    have "snd t \<notin> set (caps @ [fst t])"
    proof
      assume "snd t \<in> set (caps @ [fst t])"
      with caps' obtain e' where e': "cell board (row (snd t)) (col (snd t)) = Some e'"
        "color e' \<noteq> color piece" by auto
      with e have "snd t = start" by auto
      with e' step.prems(2,3) show False by simp
    qed
    with leaf show ?thesis by simp
  next
    case deeper
    from step.prems(3) have "color sp = color (nextPiece piece (snd t))" by simp
    from step.IH[OF d t deeper step.prems(2) this caps'] show ?thesis .
  qed
qed

lemma landing_not_captured:
  assumes "m \<in> set (calculateAllowedMoves board turn)"
  shows "mto m \<notin> set (captures m)"
proof -
  from in_calculateAllowedMoves[OF assms] obtain rc piece where
    p: "cell board (fst rc) (snd rc) = Some piece"
    and cases: "m \<in> set (getCaptureMoves board \<lparr>row = fst rc, col = snd rc\<rparr> piece [] [] []
                \<lparr>row = fst rc, col = snd rc\<rparr>) \<or>
     m \<in> set (getSimpleMoves board \<lparr>row = fst rc, col = snd rc\<rparr> piece)"
    by blast
  from cases show ?thesis
  proof
    assume c: "m \<in> set (getCaptureMoves board \<lparr>row = fst rc, col = snd rc\<rparr> piece [] [] []
                \<lparr>row = fst rc, col = snd rc\<rparr>)"
    from landing_not_captured_gen[OF c, of piece] p show ?thesis by simp
  next
    assume s: "m \<in> set (getSimpleMoves board \<lparr>row = fst rc, col = snd rc\<rparr> piece)"
    from getSimpleMoves_captures[OF s] show ?thesis by simp
  qed
qed

lemma applyMove_allowed_move:
  assumes wf: "wf_board board" and m: "m \<in> set (calculateAllowedMoves board turn)"
  shows "\<exists>p. cell board (row (mfrom m)) (col (mfrom m)) = Some p \<and>
             cell (applyMove board m) (row (mto m)) (col (mto m)) =
               Some \<lparr>color = color p, isKing = (isKing p \<or> becomesKing m)\<rparr>"
proof -
  from calculateAllowedMoves_geometry[OF wf m] obtain p where
    on: "moveOnBoard m" and p: "cell board (row (mfrom m)) (col (mfrom m)) = Some p"
    by blast
  have "\<lparr>row = row (mto m), col = col (mto m)\<rparr> = mto m" by simp
  with cell_applyMove[OF wf on p, of "row (mto m)" "col (mto m)"] landing_not_captured[OF m] p
  show ?thesis by simp
qed

end
